theory Spec2Isabelle
  imports Complex_Main "HOL-Library.Log_Nat"
begin

section \<open>Grub.io: join codes, event join, post claims and analytics\<close>

text \<open>
  A shallow embedding of the event and post lifecycle of the Grub.io client:
  \<^item> \<^verbatim>\<open>app/create-event.tsx\<close>: \<^verbatim>\<open>generateJoinCode\<close>, \<^verbatim>\<open>isJoinCodeUnique\<close>, \<^verbatim>\<open>createEvent\<close>;
  \<^item> \<^verbatim>\<open>app/join-event.tsx\<close>: \<^verbatim>\<open>handleJoinEvent\<close>; the QR screen: \<^verbatim>\<open>barcodeScanned\<close>;
  \<^item> \<^verbatim>\<open>app/event/create-post.tsx\<close>: \<^verbatim>\<open>createPost\<close>;
  \<^item> \<^verbatim>\<open>app/event/[id].tsx\<close>: the two post queries, \<^verbatim>\<open>claimPost\<close>, \<^verbatim>\<open>markComplete\<close>,
    the claim button of \<^verbatim>\<open>renderPost\<close> and the counters of \<^verbatim>\<open>renderAnalyticsTab\<close>.

  The document store is explicit state: every operation takes the store and returns the
  new one together with what the user sees. Operations run one at a time (the
  single-writer reading of the protocol); a store request fails only where the model
  says so (an update of a document that does not exist), never for lack of network or
  permission.
\<close>

subsection \<open>JavaScript values\<close>

text \<open>
  A value of type \<^verbatim>\<open>string | null\<close> is a \<^typ>\<open>string option\<close>, \<^term>\<open>None\<close> being
  \<^verbatim>\<open>null\<close>. A string is a list of characters with code points below 256 (Basic Latin
  and Latin-1 Supplement), each one UTF-16 code unit.
\<close>

definition truthy :: "string option \<Rightarrow> bool" where
  "truthy v = (case v of None \<Rightarrow> False | Some s \<Rightarrow> s \<noteq> [])"

text \<open>\<^verbatim>\<open>a || b\<close> on two nullable strings.\<close>

definition js_or :: "string option \<Rightarrow> string option \<Rightarrow> string option" where
  "js_or a b = (if truthy a then a else b)"

text \<open>A nullable string inside a template literal: \<^verbatim>\<open>`${v}`\<close>.\<close>

definition template :: "string option \<Rightarrow> string" where
  "template v = (case v of None \<Rightarrow> ''null'' | Some s \<Rightarrow> s)"

text \<open>
  The white space and line terminators that \<^verbatim>\<open>String.prototype.trim\<close> strips, among
  the code points below 256: TAB, LF, VT, FF, CR, SPACE and NO-BREAK SPACE.
\<close>

definition isSpace :: "char \<Rightarrow> bool" where
  "isSpace c = (let n = (of_char c :: nat) in (9 \<le> n \<and> n \<le> 13) \<or> n = 32 \<or> n = 160)"

definition trim :: "string \<Rightarrow> string" where
  "trim s = rev (dropWhile isSpace (rev (dropWhile isSpace s)))"

text \<open>
  The result of \<^verbatim>\<open>String.prototype.toUpperCase\<close> can leave the code points below 256
  (\<^verbatim>\<open>U+00B5\<close> becomes \<^verbatim>\<open>U+039C\<close>, \<^verbatim>\<open>U+00FF\<close> becomes \<^verbatim>\<open>U+0178\<close>) and can be longer than
  its argument (\<^verbatim>\<open>U+00DF\<close> becomes \<^verbatim>\<open>SS\<close>), so it is a list of code units. \<open>upperChar\<close> is
  the Unicode upper-case mapping of one character: \<^verbatim>\<open>a\<close>-\<^verbatim>\<open>z\<close> and \<^verbatim>\<open>U+00E0\<close>-\<^verbatim>\<open>U+00FE\<close>
  without the division sign \<^verbatim>\<open>U+00F7\<close> move down by 32.
\<close>

definition codeUnits :: "string \<Rightarrow> nat list" where
  "codeUnits s = map of_char s"

definition upperChar :: "char \<Rightarrow> nat list" where
  "upperChar c =
     (let n = (of_char c :: nat)
      in if 97 \<le> n \<and> n \<le> 122 then [n - 32]
         else if n = 181 then [924]
         else if n = 223 then [83, 83]
         else if 224 \<le> n \<and> n \<le> 254 \<and> n \<noteq> 247 then [n - 32]
         else if n = 255 then [376]
         else [n])"

definition toUpperCase :: "string \<Rightarrow> nat list" where
  "toUpperCase s = concat (map upperChar s)"

definition startsWith :: "string \<Rightarrow> string \<Rightarrow> bool" where
  "startsWith s p = (take (length p) s = p)"

definition substring :: "string \<Rightarrow> nat \<Rightarrow> string" where
  "substring s n = drop n s"

text \<open>\<^verbatim>\<open>s.charAt(i)\<close>: the empty string when \<open>i\<close> is out of range.\<close>

definition charAt :: "string \<Rightarrow> nat \<Rightarrow> string" where
  "charAt s i = (if i < length s then [s ! i] else [])"

subsection \<open>Double-precision arithmetic\<close>

text \<open>
  The analytics tab divides and multiplies JavaScript numbers, which are IEEE-754
  doubles. A finite double is a rational; \<open>toDouble\<close> rounds a non-negative rational
  to the nearest double (53 significant bits, ties to even, gradual underflow). Overflow
  is not modelled: the values here stay below 101.
\<close>

definition pow2 :: "int \<Rightarrow> rat" where
  "pow2 e = (if 0 \<le> e then 2 ^ nat e else 1 / 2 ^ nat (- e))"

definition roundTiesToEven :: "rat \<Rightarrow> int" where
  "roundTiesToEven x =
     (let f = \<lfloor>x\<rfloor>; d = x - of_int f
      in if d < 1 / 2 then f else if 1 / 2 < d then f + 1 else if even f then f else f + 1)"

text \<open>The binary exponent \<open>\<lfloor>log\<^sub>2 x\<rfloor>\<close> of a positive rational.\<close>

definition ilog2 :: "rat \<Rightarrow> int" where
  "ilog2 x = (case quotient_of x of (a, b) \<Rightarrow>
     (let e = bitlen a - bitlen b in if pow2 e \<le> x then e else e - 1))"

definition toDouble :: "rat \<Rightarrow> rat" where
  "toDouble x = (if x \<le> 0 then 0 else
     (let q = pow2 (max (ilog2 x - 52) (- 1074)) in of_int (roundTiesToEven (x / q)) * q))"

definition fdiv :: "rat \<Rightarrow> rat \<Rightarrow> rat" where
  "fdiv a b = toDouble (a / b)"

definition fmul :: "rat \<Rightarrow> rat \<Rightarrow> rat" where
  "fmul a b = toDouble (a * b)"

text \<open>\<^verbatim>\<open>Math.round\<close>: the nearest integer, a tie going up.\<close>

definition Math_round :: "rat \<Rightarrow> int" where
  "Math_round x = \<lfloor>x + 1 / 2\<rfloor>"

subsection \<open>Documents\<close>

text \<open>
  Document ids are the store's opaque auto-ids, modelled as naturals. User ids are the
  identity provider's strings. \<^verbatim>\<open>auth.currentUser\<close> is an \<open>auth_user option\<close>.
\<close>

type_synonym doc_id = nat

record auth_user =
  uid :: string
  email :: "string option"

record user_doc =
  displayName :: string
  profileEmail :: string

text \<open>The fields that \<^verbatim>\<open>createPost\<close> writes (type \<^verbatim>\<open>Post\<close> of the event screen).\<close>

record post =
  title :: string
  description :: string
  location :: string
  imageUrl :: "string option"
  userId :: string
  userName :: "string option"
  userEmail :: "string option"
  claimedBy :: "string option"
  claimedByName :: "string option"
  claimedByEmail :: "string option"
  completed :: bool
  createdAt :: nat

text \<open>The fields that \<^verbatim>\<open>createEvent\<close> writes.\<close>

record event =
  eventTitle :: string
  eventDescription :: string
  date :: string
  createdBy :: string
  attendees :: "string list"
  joinCode :: string
  eventCreatedAt :: nat

text \<open>The notification payload of \<^verbatim>\<open>claimPost\<close>.\<close>

record notification =
  notifUserId :: string
  notifType :: string
  message :: string
  eventId :: doc_id
  postId :: doc_id
  read :: bool
  notifCreatedAt :: nat

text \<open>
  A collection is a list of documents with their keys, in the order in which a query
  without \<^verbatim>\<open>orderBy\<close> returns them. A post lives at \<^verbatim>\<open>events/{eventId}/posts/{postId}\<close>,
  so its key is the pair of both ids.
\<close>

record db =
  events :: "(doc_id \<times> event) list"
  posts :: "((doc_id \<times> doc_id) \<times> post) list"
  users :: "string \<rightharpoonup> user_doc"
  notifications :: "(doc_id \<times> notification) list"

subsection \<open>Store primitives\<close>

definition getDoc :: "('k \<times> 'v) list \<Rightarrow> 'k \<Rightarrow> 'v option" where
  "getDoc c k = map_of c k"

text \<open>\<^verbatim>\<open>updateDoc\<close> merges fields into an existing document and rejects a missing one.\<close>

definition updateDoc :: "('k \<times> 'v) list \<Rightarrow> 'k \<Rightarrow> ('v \<Rightarrow> 'v) \<Rightarrow> ('k \<times> 'v) list option" where
  "updateDoc c k f =
     (if k \<in> fst ` set c then Some (map (\<lambda>(k', v). if k' = k then (k', f v) else (k', v)) c)
      else None)"

text \<open>A fresh auto-id for a collection whose ids are \<open>ids\<close>.\<close>

definition autoId :: "doc_id list \<Rightarrow> doc_id" where
  "autoId ids = Suc (fold max ids 0)"

definition addDoc :: "(doc_id \<times> 'v) list \<Rightarrow> 'v \<Rightarrow> doc_id \<times> (doc_id \<times> 'v) list" where
  "addDoc c v = (let i = autoId (map fst c) in (i, c @ [(i, v)]))"

definition addPostDoc :: "((doc_id \<times> doc_id) \<times> post) list \<Rightarrow> doc_id \<Rightarrow> post
    \<Rightarrow> doc_id \<times> ((doc_id \<times> doc_id) \<times> post) list" where
  "addPostDoc c e v = (let i = autoId (map (snd \<circ> fst) c) in (i, c @ [((e, i), v)]))"

text \<open>\<^verbatim>\<open>arrayUnion(x)\<close> applied to the stored array.\<close>

definition arrayUnion :: "'a list \<Rightarrow> 'a \<Rightarrow> 'a list" where
  "arrayUnion xs x = (if x \<in> set xs then xs else xs @ [x])"

text \<open>
  \<^verbatim>\<open>query(eventsRef, where("joinCode", "==", key))\<close>, the key being given by its code
  units.
\<close>

definition eventsByJoinCode :: "(doc_id \<times> event) list \<Rightarrow> nat list \<Rightarrow> (doc_id \<times> event) list" where
  "eventsByJoinCode es key = filter (\<lambda>(i, e). codeUnits (joinCode e) = key) es"

text \<open>
  The two live queries of the event screen; a snapshot document is the pair of the
  post id and the post's fields. \<^verbatim>\<open>orderBy("createdAt", "desc")\<close> is a sort.
\<close>

definition postsOf :: "db \<Rightarrow> doc_id \<Rightarrow> (doc_id \<times> post) list" where
  "postsOf d e = map (\<lambda>((e', i), p). (i, p)) (filter (\<lambda>((e', i), p). e' = e) (posts d))"

definition orderByCreatedAtDesc :: "(doc_id \<times> post) list \<Rightarrow> (doc_id \<times> post) list" where
  "orderByCreatedAtDesc xs = rev (sort_key (\<lambda>(i, p). createdAt p) xs)"

definition activePosts :: "db \<Rightarrow> doc_id \<Rightarrow> (doc_id \<times> post) list" where
  "activePosts d e = orderByCreatedAtDesc (filter (\<lambda>(i, p). completed p = False) (postsOf d e))"

definition allPosts :: "db \<Rightarrow> doc_id \<Rightarrow> (doc_id \<times> post) list" where
  "allPosts d e = orderByCreatedAtDesc (postsOf d e)"

subsection \<open>What the user sees\<close>

text \<open>
  An identifier that is neither declared nor imported in a module throws a
  \<^verbatim>\<open>ReferenceError\<close> when it is evaluated.
\<close>

datatype js_error = ReferenceError string

text \<open>
  The alert or navigation an operation ends with:
  \<^item> \<open>Silent\<close>: an early \<^verbatim>\<open>return\<close> without any alert;
  \<^item> \<open>NotLoggedIn\<close>: alert "Error", "You must be logged in ...";
  \<^item> \<open>ValidationError\<close>: alert "Error", "Please enter a join code." or "Please fill in ...";
  \<^item> \<open>NotFound\<close>: alert "Not Found", "No event found with that join code." (or "QR code");
  \<^item> \<open>AlreadyJoined\<close>: alert "Already Joined" and navigation to the event;
  \<^item> \<open>Joined\<close>: navigation to the event after the attendee update;
  \<^item> \<open>StoreError\<close>: the \<^verbatim>\<open>catch\<close> branch, alert "Error", "Could not ...";
  \<^item> \<open>Unclaimed\<close>: alert "Unclaimed"; \<open>Claimed\<close>, \<open>Completed\<close>: no alert;
  \<^item> \<open>PostCreated\<close>: alert "Success"; \<open>EventCreated\<close>: navigation to the new event;
  \<^item> \<open>Thrown\<close>: the \<^verbatim>\<open>catch\<close> branch of \<^verbatim>\<open>createEvent\<close>, alert "Error" with the message of
    the exception caught.
\<close>

datatype outcome =
    Silent
  | NotLoggedIn
  | ValidationError
  | NotFound
  | AlreadyJoined doc_id
  | Joined doc_id
  | StoreError
  | Unclaimed
  | Claimed
  | Completed
  | PostCreated
  | EventCreated doc_id
  | Thrown js_error

text \<open>The two outcomes in which the user ends up on the event screen as an attendee.\<close>

definition joined :: "outcome \<Rightarrow> bool" where
  "joined out = (case out of AlreadyJoined j \<Rightarrow> True | Joined j \<Rightarrow> True | _ \<Rightarrow> False)"

subsection \<open>Join codes and event creation\<close>

definition chars :: string where
  "chars = ''ABCDEFGHIJKLMNOPQRSTUVWXYZ0123456789''"

text \<open>
  \<open>rnd n\<close> is the value of \<^verbatim>\<open>Math.floor(Math.random() * chars.length)\<close> at the \<open>n\<close>-th call
  of \<^verbatim>\<open>Math.random\<close>, and \<open>k\<close> counts the calls made so far. The loop body appends one
  character per draw.
\<close>

definition generateJoinCode :: "(nat \<Rightarrow> nat) \<Rightarrow> nat \<Rightarrow> string" where
  "generateJoinCode rnd k = fold (\<lambda>i code. code @ charAt chars (rnd (k + i))) [0..<6] []"

text \<open>
  The functions of \<^verbatim>\<open>create-event.tsx\<close> call functions of \<^verbatim>\<open>firebase/firestore\<close> by name.
  Their parameter \<open>scope\<close> lists the names that the module imports from there;
  \<open>createEventImports\<close> are those that line 3 of the file imports, and they do not
  include \<^verbatim>\<open>query\<close>, \<^verbatim>\<open>where\<close> and \<^verbatim>\<open>getDocs\<close>. \<open>unbound scope names\<close> is the error of
  evaluating \<open>names\<close> in this order, if one of them is not in scope.
\<close>

definition createEventImports :: "string list" where
  "createEventImports = [''addDoc'', ''collection'', ''Timestamp'']"

fun unbound :: "string list \<Rightarrow> string list \<Rightarrow> js_error option" where
  "unbound scope [] = None"
| "unbound scope (n # ns) = (if n \<in> set scope then unbound scope ns else Some (ReferenceError n))"

text \<open>
  \<^verbatim>\<open>isJoinCodeUnique\<close> evaluates \<^verbatim>\<open>collection(db, "events")\<close>, then
  \<^verbatim>\<open>query(eventsRef, where("joinCode", "==", code))\<close>, the callee before its arguments,
  then \<^verbatim>\<open>getDocs(q)\<close>, and returns \<^verbatim>\<open>snapshot.empty\<close>. A \<^verbatim>\<open>ReferenceError\<close> rejects the
  promise it returns.
\<close>

definition isJoinCodeUnique :: "string list \<Rightarrow> (doc_id \<times> event) list \<Rightarrow> string \<Rightarrow> js_error + bool" where
  "isJoinCodeUnique scope es code =
     (case unbound scope [''collection'', ''query'', ''where'', ''getDocs''] of
        Some err \<Rightarrow> Inl err
      | None \<Rightarrow> Inr (eventsByJoinCode es (codeUnits code) = []))"

text \<open>
  \<^verbatim>\<open>while (!isUnique) { joinCode = generateJoinCode(); isUnique = await isJoinCodeUnique(joinCode); }\<close>
  has no bound on its iterations: \<^term>\<open>None\<close> is the loop that never ends. An exception
  thrown in the body leaves the loop with the number of draws made.
\<close>

partial_function (option) retryJoinCode ::
  "string list \<Rightarrow> (doc_id \<times> event) list \<Rightarrow> (nat \<Rightarrow> nat) \<Rightarrow> nat \<Rightarrow> string \<Rightarrow> bool
     \<Rightarrow> ((js_error + string) \<times> nat) option" where
  "retryJoinCode scope es rnd k code isUnique =
     (if isUnique then Some (Inr code, k)
      else
        (case isJoinCodeUnique scope es (generateJoinCode rnd k) of
           Inl err \<Rightarrow> Some (Inl err, k + 6)
         | Inr u \<Rightarrow> retryJoinCode scope es rnd (k + 6) (generateJoinCode rnd k) u))"

declare retryJoinCode.simps [code]

text \<open>
  \<^verbatim>\<open>createEvent\<close>: the two guards, then inside \<^verbatim>\<open>try\<close> the first code and its check, the
  loop, and \<^verbatim>\<open>addDoc\<close>; whatever is thrown there is caught and shown. The date is stored
  as entered (its conversion to a timestamp is not modelled), \<open>now\<close> is
  \<^verbatim>\<open>Timestamp.now()\<close>. The result carries the number of random draws made.
\<close>

definition createEvent :: "string list \<Rightarrow> db \<Rightarrow> auth_user option \<Rightarrow> string \<Rightarrow> string \<Rightarrow> string
    \<Rightarrow> nat \<Rightarrow> (nat \<Rightarrow> nat) \<Rightarrow> nat \<Rightarrow> (outcome \<times> db \<times> nat) option" where
  "createEvent scope d user ttl descr dt now rnd k =
     (case user of
        None \<Rightarrow> Some (NotLoggedIn, d, k)
      | Some u \<Rightarrow>
          if ttl = [] \<or> descr = [] \<or> dt = [] then Some (ValidationError, d, k)
          else
            (case isJoinCodeUnique scope (events d) (generateJoinCode rnd k) of
               Inl err \<Rightarrow> Some (Thrown err, d, k + 6)
             | Inr isUnique \<Rightarrow>
                 (case retryJoinCode scope (events d) rnd (k + 6) (generateJoinCode rnd k) isUnique of
                    None \<Rightarrow> None
                  | Some (Inl err, k') \<Rightarrow> Some (Thrown err, d, k')
                  | Some (Inr code, k') \<Rightarrow>
                      (case unbound scope [''collection'', ''addDoc'', ''Timestamp''] of
                         Some err \<Rightarrow> Some (Thrown err, d, k')
                       | None \<Rightarrow>
                           (case addDoc (events d)
                                   \<lparr>eventTitle = ttl, eventDescription = descr, date = dt,
                                    createdBy = uid u, attendees = [uid u], joinCode = code,
                                    eventCreatedAt = now\<rparr> of
                              (i, es) \<Rightarrow> Some (EventCreated i, d\<lparr>events := es\<rparr>, k'))))))"

text \<open>Event creations one after the other; a request is the form's content.\<close>

record request =
  reqUser :: "auth_user option"
  reqTitle :: string
  reqDescription :: string
  reqDate :: string
  reqNow :: nat

fun createEvents :: "string list \<Rightarrow> db \<Rightarrow> request list \<Rightarrow> (nat \<Rightarrow> nat) \<Rightarrow> nat \<Rightarrow> (db \<times> nat) option" where
  "createEvents scope d [] rnd k = Some (d, k)"
| "createEvents scope d (r # rs) rnd k =
     (case createEvent scope d (reqUser r) (reqTitle r) (reqDescription r) (reqDate r) (reqNow r) rnd k of
        None \<Rightarrow> None
      | Some (out, d', k') \<Rightarrow> createEvents scope d' rs rnd k')"

text \<open>The imports with which every name of \<^verbatim>\<open>create-event.tsx\<close> is bound.\<close>

definition repairedImports :: "string list" where
  "repairedImports = [''addDoc'', ''collection'', ''getDocs'', ''query'', ''Timestamp'', ''where'']"

definition accepted :: "request \<Rightarrow> bool" where
  "accepted r = (reqUser r \<noteq> None \<and> reqTitle r \<noteq> [] \<and> reqDescription r \<noteq> [] \<and> reqDate r \<noteq> [])"

definition validCode :: "string \<Rightarrow> bool" where
  "validCode c = (length c = 6 \<and> set c \<subseteq> set chars)"

subsection \<open>Joining an event\<close>

text \<open>\<^verbatim>\<open>handleJoinEvent\<close>: the typed code is trimmed and upper-cased before the lookup.\<close>

definition joinFirstMatch :: "db \<Rightarrow> auth_user \<Rightarrow> nat list \<Rightarrow> outcome \<times> db" where
  "joinFirstMatch d u key =
     (case eventsByJoinCode (events d) key of
        [] \<Rightarrow> (NotFound, d)
      | (i, eventData) # rest \<Rightarrow>
          if uid u \<in> set (attendees eventData) then (AlreadyJoined i, d)
          else
            (case updateDoc (events d) i (\<lambda>e. e\<lparr>attendees := arrayUnion (attendees e) (uid u)\<rparr>) of
               None \<Rightarrow> (StoreError, d)
             | Some es \<Rightarrow> (Joined i, d\<lparr>events := es\<rparr>)))"

definition handleJoinEvent :: "db \<Rightarrow> auth_user option \<Rightarrow> string \<Rightarrow> outcome \<times> db" where
  "handleJoinEvent d user code =
     (case user of
        None \<Rightarrow> (NotLoggedIn, d)
      | Some u \<Rightarrow>
          if trim code = [] then (ValidationError, d)
          else joinFirstMatch d u (toUpperCase (trim code)))"

text \<open>
  \<^verbatim>\<open>barcodeScanned\<close>: the payload loses its \<^verbatim>\<open>GRUBIO:\<close> prefix and is upper-cased (not
  trimmed). The screen's \<^verbatim>\<open>scanned\<close> flag is passed in and returned.
\<close>

definition barcodeScanned :: "db \<Rightarrow> auth_user option \<Rightarrow> bool \<Rightarrow> string \<Rightarrow> outcome \<times> bool \<times> db" where
  "barcodeScanned d user scanned data =
     (if scanned then (Silent, scanned, d)
      else
        (case user of
           None \<Rightarrow> (NotLoggedIn, False, d)
         | Some u \<Rightarrow>
             (let code = (if startsWith data ''GRUBIO:'' then substring data 7 else data);
                  r = joinFirstMatch d u (toUpperCase code)
              in (fst r, True, snd r))))"

subsection \<open>Posts\<close>

text \<open>
  \<^verbatim>\<open>userDoc.exists() ? userDoc.data()?.displayName : null\<close>; a user document always
  has the display name that sign-up wrote.
\<close>

definition lookupUserName :: "db \<Rightarrow> string \<Rightarrow> string option" where
  "lookupUserName d u = (case users d u of None \<Rightarrow> None | Some doc \<Rightarrow> Some (displayName doc))"

text \<open>
  \<^verbatim>\<open>createPost\<close>. \<open>upload\<close> is the storage service: the download URL of an image, or
  \<^term>\<open>None\<close> when the upload throws.
\<close>

definition uploadIfAny :: "string option \<Rightarrow> (string \<Rightarrow> string option) \<Rightarrow> string option option" where
  "uploadIfAny imageUri upload =
     (case imageUri of
        None \<Rightarrow> Some None
      | Some uri \<Rightarrow> if uri = [] then Some None else map_option Some (upload uri))"

definition createPost :: "db \<Rightarrow> auth_user option \<Rightarrow> doc_id \<Rightarrow> string \<Rightarrow> string \<Rightarrow> string
    \<Rightarrow> string option \<Rightarrow> (string \<Rightarrow> string option) \<Rightarrow> nat \<Rightarrow> outcome \<times> db" where
  "createPost d user e ttl descr loc imageUri upload now =
     (case user of
        None \<Rightarrow> (NotLoggedIn, d)
      | Some u \<Rightarrow>
          if trim ttl = [] \<or> trim descr = [] then (ValidationError, d)
          else
            (let name = lookupUserName d (uid u) in
             case uploadIfAny imageUri upload of
               None \<Rightarrow> (StoreError, d)
             | Some img \<Rightarrow>
                 (case addPostDoc (posts d) e
                         \<lparr>title = trim ttl, description = trim descr, location = trim loc,
                          imageUrl = img, userId = uid u, userName = name,
                          userEmail = email u, claimedBy = None, claimedByName = None,
                          claimedByEmail = None, completed = False, createdAt = now\<rparr> of
                    (i, ps) \<Rightarrow> (PostCreated, d\<lparr>posts := ps\<rparr>))))"

definition dquote :: string where
  "dquote = [CHR 0x22]"

text \<open>\<^verbatim>\<open>`${userName || currentUser.email} claimed your "${postTitle}"`\<close>.\<close>

definition claimMessage :: "string option \<Rightarrow> string option \<Rightarrow> string \<Rightarrow> string" where
  "claimMessage name mail postTitle =
     template (js_or name mail) @ '' claimed your '' @ dquote @ postTitle @ dquote"

text \<open>\<^verbatim>\<open>claimPost\<close> on the event \<open>e\<close> of the screen.\<close>

definition claimPost :: "db \<Rightarrow> auth_user option \<Rightarrow> doc_id \<Rightarrow> nat \<Rightarrow> doc_id \<Rightarrow> string option
    \<Rightarrow> string \<Rightarrow> string \<Rightarrow> outcome \<times> db" where
  "claimPost d currentUser e now pid currentClaimedBy postOwnerId postTitle =
     (case currentUser of
        None \<Rightarrow> (Silent, d)
      | Some u \<Rightarrow>
          (let name = lookupUserName d (uid u) in
           if currentClaimedBy = Some (uid u) then
             (case updateDoc (posts d) (e, pid)
                     (\<lambda>p. p\<lparr>claimedBy := None, claimedByName := None, claimedByEmail := None\<rparr>) of
                None \<Rightarrow> (StoreError, d)
              | Some ps \<Rightarrow> (Unclaimed, d\<lparr>posts := ps\<rparr>))
           else
             (case updateDoc (posts d) (e, pid)
                     (\<lambda>p. p\<lparr>claimedBy := Some (uid u), claimedByName := name,
                             claimedByEmail := email u\<rparr>) of
                None \<Rightarrow> (StoreError, d)
              | Some ps \<Rightarrow>
                  if postOwnerId \<noteq> uid u then
                    (case addDoc (notifications d)
                            \<lparr>notifUserId = postOwnerId, notifType = ''claim'',
                             message = claimMessage name (email u) postTitle,
                             eventId = e, postId = pid, read = False, notifCreatedAt = now\<rparr> of
                       (i, ns) \<Rightarrow> (Claimed, d\<lparr>posts := ps, notifications := ns\<rparr>))
                  else (Claimed, d\<lparr>posts := ps\<rparr>))))"

definition markComplete :: "db \<Rightarrow> doc_id \<Rightarrow> doc_id \<Rightarrow> outcome \<times> db" where
  "markComplete d e pid =
     (case updateDoc (posts d) (e, pid) (\<lambda>p. p\<lparr>completed := True\<rparr>) of
        None \<Rightarrow> (StoreError, d)
      | Some ps \<Rightarrow> (Completed, d\<lparr>posts := ps\<rparr>))"

subsection \<open>The claim button of \<^verbatim>\<open>renderPost\<close>\<close>

definition isOwner :: "auth_user option \<Rightarrow> post \<Rightarrow> bool" where
  "isOwner currentUser item = (case currentUser of None \<Rightarrow> False | Some u \<Rightarrow> userId item = uid u)"

definition isClaimed :: "post \<Rightarrow> bool" where
  "isClaimed item = truthy (claimedBy item)"

definition isClaimedByMe :: "auth_user option \<Rightarrow> post \<Rightarrow> bool" where
  "isClaimedByMe currentUser item =
     (case currentUser of None \<Rightarrow> False | Some u \<Rightarrow> claimedBy item = Some (uid u))"

datatype button = Hidden | Disabled | Enabled

definition claimButton :: "auth_user option \<Rightarrow> post \<Rightarrow> button" where
  "claimButton currentUser item =
     (if isOwner currentUser item then Hidden
      else if isClaimed item \<and> \<not> isClaimedByMe currentUser item then Disabled
      else Enabled)"

text \<open>
  The button's handler:
  \<^verbatim>\<open>() => claimPost(item.id, item.claimedBy || null, item.userId, item.title)\<close>.
\<close>

definition onPressClaim :: "db \<Rightarrow> auth_user option \<Rightarrow> doc_id \<Rightarrow> nat \<Rightarrow> doc_id \<times> post \<Rightarrow> outcome \<times> db" where
  "onPressClaim d currentUser e now item =
     claimPost d currentUser e now (fst item) (js_or (claimedBy (snd item)) None)
       (userId (snd item)) (title (snd item))"

subsection \<open>Analytics\<close>

record analytics =
  totalPosts :: nat
  claimedPosts :: nat
  completedPosts :: nat
  percentSaved :: int
  foodWasteLbs :: rat

text \<open>The counters of \<^verbatim>\<open>renderAnalyticsTab\<close> over the list \<^verbatim>\<open>allPosts\<close>.\<close>

definition renderAnalyticsTab :: "(doc_id \<times> post) list \<Rightarrow> analytics" where
  "renderAnalyticsTab ps =
     (let total = length ps;
          claimed = length (filter (\<lambda>(i, p). truthy (claimedBy p)) ps);
          done = length (filter (\<lambda>(i, p). completed p) ps)
      in \<lparr>totalPosts = total, claimedPosts = claimed, completedPosts = done,
          percentSaved =
            (if 0 < total then Math_round (fmul (fdiv (of_nat claimed) (of_nat total)) 100) else 0),
          foodWasteLbs = fmul (of_nat total) (toDouble (1 / 2))\<rparr>)"

subsection \<open>The protocol as a sequence of operations\<close>

datatype action =
    ClaimPost "auth_user option" doc_id nat doc_id "string option" string string
  | MarkComplete doc_id doc_id
  | CreatePost "auth_user option" doc_id string string string "string option" "string \<Rightarrow> string option" nat
  | JoinEvent "auth_user option" string
  | ScanJoin "auth_user option" bool string

fun step :: "db \<Rightarrow> action \<Rightarrow> db" where
  "step d (ClaimPost u e now pid cb owner ttl) = snd (claimPost d u e now pid cb owner ttl)"
| "step d (MarkComplete e pid) = snd (markComplete d e pid)"
| "step d (CreatePost u e ttl descr loc img upload now) = snd (createPost d u e ttl descr loc img upload now)"
| "step d (JoinEvent u code) = snd (handleJoinEvent d u code)"
| "step d (ScanJoin u scanned data) = snd (snd (barcodeScanned d u scanned data))"

fun run :: "db \<Rightarrow> action list \<Rightarrow> db" where
  "run d [] = d"
| "run d (a # as) = run (step d a) as"

subsection \<open>Sample data\<close>

definition alice :: auth_user where
  "alice = \<lparr>uid = ''alice'', email = Some ''alice@grub.io''\<rparr>"

definition bob :: auth_user where
  "bob = \<lparr>uid = ''bob'', email = Some ''bob@grub.io''\<rparr>"

definition carol :: auth_user where
  "carol = \<lparr>uid = ''carol'', email = None\<rparr>"


definition pizza :: post where
  "pizza = \<lparr>title = ''Pizza'', description = ''Two boxes'', location = ''Lobby'',
            imageUrl = None, userId = ''alice'', userName = Some ''Alice'',
            userEmail = Some ''alice@grub.io'', claimedBy = None, claimedByName = None,
            claimedByEmail = None, completed = False, createdAt = 10\<rparr>"

definition tacos :: post where
  "tacos = \<lparr>title = ''Tacos'', description = ''Six left'', location = ''Room 2'',
            imageUrl = None, userId = ''alice'', userName = Some ''Alice'',
            userEmail = Some ''alice@grub.io'', claimedBy = Some ''bob'',
            claimedByName = Some ''Bob'', claimedByEmail = Some ''bob@grub.io'',
            completed = True, createdAt = 20\<rparr>"

definition cookout :: event where
  "cookout = \<lparr>eventTitle = ''Cookout'', eventDescription = ''Behind the gym'',
               date = ''2025-10-28'', createdBy = ''alice'', attendees = [''alice'', ''bob''],
               joinCode = ''AB12CD'', eventCreatedAt = 1\<rparr>"

definition sampleUsers :: "string \<rightharpoonup> user_doc" where
  "sampleUsers = [''alice'' \<mapsto> \<lparr>displayName = ''Alice'', profileEmail = ''alice@grub.io''\<rparr>,
                  ''bob'' \<mapsto> \<lparr>displayName = ''Bob'', profileEmail = ''bob@grub.io''\<rparr>]"

definition sampleDb :: db where
  "sampleDb = \<lparr>events = [(1, cookout)], posts = [((1, 1), pizza), ((1, 2), tacos)],
               users = sampleUsers, notifications = []\<rparr>"

definition noUpload :: "string \<Rightarrow> string option" where
  "noUpload uri = None"

definition sampleActions :: "action list" where
  "sampleActions =
     [ClaimPost (Some bob) 1 30 2 (Some ''bob'') ''alice'' ''Tacos'',
      ClaimPost (Some carol) 1 31 2 None ''alice'' ''Tacos'',
      MarkComplete 1 1,
      CreatePost (Some bob) 1 ''Soda'' ''Cans'' '''' None noUpload 32,
      JoinEvent (Some carol) ''ab12cd'',
      ScanJoin (Some carol) False ''GRUBIO:AB12CD'']"

definition claimedPizza :: post where
  "claimedPizza = pizza\<lparr>claimedBy := Some ''bob'', claimedByName := Some ''Bob'',
                        claimedByEmail := Some ''bob@grub.io''\<rparr>"

definition claimedDb :: db where
  "claimedDb = sampleDb\<lparr>posts := [((1, 1), claimedPizza), ((1, 2), tacos)]\<rparr>"

text \<open>
  Random draws: the first six make the code \<^verbatim>\<open>AAAAAA\<close>, the next six make it again, and
  all later ones make \<^verbatim>\<open>BBBBBB\<close>. Where the uniqueness check works, a second creation
  finds \<^verbatim>\<open>AAAAAA\<close> taken and retries with \<^verbatim>\<open>BBBBBB\<close>.
\<close>

definition sampleRnd :: "nat \<Rightarrow> nat" where
  "sampleRnd n = (if n < 12 then 0 else 1)"

definition sampleRequests :: "request list" where
  "sampleRequests =
     [\<lparr>reqUser = Some alice, reqTitle = ''Bake sale'', reqDescription = ''Cookies'',
       reqDate = ''2025-11-01'', reqNow = 50\<rparr>,
      \<lparr>reqUser = Some bob, reqTitle = '''', reqDescription = ''No title'',
       reqDate = ''2025-11-02'', reqNow = 51\<rparr>,
      \<lparr>reqUser = Some bob, reqTitle = ''Picnic'', reqDescription = ''Leftovers'',
       reqDate = ''2025-11-03'', reqNow = 52\<rparr>]"

text \<open>A list of \<open>t\<close> posts of which the first \<open>c\<close> are claimed.\<close>

definition postsClaimed :: "nat \<Rightarrow> nat \<Rightarrow> (doc_id \<times> post) list" where
  "postsClaimed c t = replicate c (0, claimedPizza) @ replicate (t - c) (0, pizza)"

definition samplePosts :: "(doc_id \<times> post) list" where
  "samplePosts = [(4, claimedPizza\<lparr>completed := True\<rparr>), (3, claimedPizza), (2, tacos), (1, pizza)]"

section \<open>Properties\<close>

subsection \<open>Store primitives\<close>

lemma map_of_update_all:
  "map_of (map (\<lambda>(k', v). if k' = k then (k', f v) else (k', v)) c) k' =
     (if k' = k then map_option f (map_of c k') else map_of c k')"
  by (induction c) auto

lemma getDoc_updateDoc:
  "updateDoc c k f = Some c' \<Longrightarrow>
   getDoc c' k' = (if k' = k then map_option f (getDoc c k') else getDoc c k')"
  unfolding updateDoc_def getDoc_def
  by (auto simp: map_of_update_all split: if_splits)

lemma getDoc_snoc:
  "getDoc (c @ [(k, v)]) k' =
     (case getDoc c k' of Some x \<Rightarrow> Some x | None \<Rightarrow> if k' = k then Some v else None)"
  unfolding getDoc_def by (auto simp: map_add_def split: option.splits)

lemma keys_updateDoc: "updateDoc c k f = Some c' \<Longrightarrow> map fst c' = map fst c"
  unfolding updateDoc_def by (auto split: if_splits)

lemma updateDoc_Some: "getDoc c k = Some v \<Longrightarrow> \<exists>c'. updateDoc c k f = Some c'"
  unfolding updateDoc_def getDoc_def by (auto dest: map_of_SomeD intro: rev_image_eqI)

lemma fold_max_ge: "(a::nat) \<le> fold max ids a"
  by (induction ids arbitrary: a) (auto intro: order_trans [OF max.cobounded2])

lemma fold_max_mem: "x \<in> set ids \<Longrightarrow> (x::nat) \<le> fold max ids a"
proof (induction ids arbitrary: a)
  case Nil
  then show ?case by simp
next
  case (Cons y ys)
  show ?case
  proof (cases "x = y")
    case True
    have "y \<le> max y a" by simp
    also have "\<dots> \<le> fold max ys (max y a)" by (rule fold_max_ge)
    finally show ?thesis using True by simp
  next
    case False
    with Cons show ?thesis by simp
  qed
qed

lemma autoId_fresh: "autoId ids \<notin> set ids"
proof
  assume "autoId ids \<in> set ids"
  then have "autoId ids \<le> fold max ids 0" by (rule fold_max_mem)
  then show False by (simp add: autoId_def)
qed

subsection \<open>How each operation changes the posts\<close>

lemma claimPost_posts:
  "posts (snd (claimPost d u e now pid cb owner ttl)) = posts d \<or>
   (\<exists>f. updateDoc (posts d) (e, pid) f = Some (posts (snd (claimPost d u e now pid cb owner ttl))) \<and>
        (\<forall>p. completed (f p) = completed p))"
  unfolding claimPost_def
  by (auto simp: Let_def split: option.splits prod.splits)

lemma markComplete_posts:
  "posts (snd (markComplete d e pid)) = posts d \<or>
   (\<exists>f. updateDoc (posts d) (e, pid) f = Some (posts (snd (markComplete d e pid))) \<and>
        (\<forall>p. completed (f p)))"
  unfolding markComplete_def
  by (auto split: option.splits)

lemma createPost_posts:
  "posts (snd (createPost d u e ttl descr loc img upload now)) = posts d \<or>
   (\<exists>i v. posts (snd (createPost d u e ttl descr loc img upload now)) = posts d @ [((e, i), v)] \<and>
          i \<notin> set (map (snd \<circ> fst) (posts d)))"
proof -
  have "autoId (map (snd \<circ> fst) (posts d)) \<notin> set (map (snd \<circ> fst) (posts d))"
    by (rule autoId_fresh)
  then show ?thesis
    unfolding createPost_def addPostDoc_def
    by (auto simp: Let_def split: option.splits prod.splits)
qed

lemma joinFirstMatch_posts: "posts (snd (joinFirstMatch d u code)) = posts d"
  unfolding joinFirstMatch_def
  by (auto split: list.splits option.splits)

lemma handleJoinEvent_posts: "posts (snd (handleJoinEvent d u code)) = posts d"
  unfolding handleJoinEvent_def
  by (auto simp: joinFirstMatch_posts split: option.splits)

lemma barcodeScanned_posts: "posts (snd (snd (barcodeScanned d u s data))) = posts d"
  unfolding barcodeScanned_def
  by (auto simp: joinFirstMatch_posts Let_def split: option.splits)

lemma step_completed:
  assumes "getDoc (posts d) k = Some p" "completed p"
  shows "\<exists>p'. getDoc (posts (step d a)) k = Some p' \<and> completed p'"
proof (cases a)
  case (ClaimPost u e now pid cb owner ttl)
  with claimPost_posts [of d u e now pid cb owner ttl] assms show ?thesis
    by (auto simp: getDoc_updateDoc)
next
  case (MarkComplete e pid)
  with markComplete_posts [of d e pid] assms show ?thesis
    by (auto simp: getDoc_updateDoc)
next
  case (CreatePost u e ttl descr loc img upload now)
  with createPost_posts [of d u e ttl descr loc img upload now] assms show ?thesis
    by (auto simp: getDoc_snoc)
next
  case (JoinEvent u code)
  with assms show ?thesis by (simp add: handleJoinEvent_posts)
next
  case (ScanJoin u s data)
  with assms show ?thesis by (simp add: barcodeScanned_posts)
qed

lemma run_completed:
  "getDoc (posts d) k = Some p \<Longrightarrow> completed p \<Longrightarrow>
   \<exists>p'. getDoc (posts (run d as)) k = Some p' \<and> completed p'"
proof (induction as arbitrary: d p)
  case Nil
  then show ?case by simp
next
  case (Cons a as)
  from step_completed [OF Cons.prems] obtain q
    where "getDoc (posts (step d a)) k = Some q" "completed q" by blast
  from Cons.IH [OF this] show ?case by simp
qed

lemma step_distinct:
  assumes "distinct (map fst (posts d))"
  shows "distinct (map fst (posts (step d a)))"
proof (cases a)
  case (ClaimPost u e now pid cb owner ttl)
  with claimPost_posts [of d u e now pid cb owner ttl] assms show ?thesis
    by (auto simp: keys_updateDoc)
next
  case (MarkComplete e pid)
  with markComplete_posts [of d e pid] assms show ?thesis
    by (auto simp: keys_updateDoc)
next
  case (CreatePost u e ttl descr loc img upload now)
  with createPost_posts [of d u e ttl descr loc img upload now] assms show ?thesis
    by force
next
  case (JoinEvent u code)
  with assms show ?thesis by (simp add: handleJoinEvent_posts)
next
  case (ScanJoin u s data)
  with assms show ?thesis by (simp add: barcodeScanned_posts)
qed

lemma run_distinct:
  "distinct (map fst (posts d)) \<Longrightarrow> distinct (map fst (posts (run d as)))"
  by (induction as arbitrary: d) (auto intro: step_distinct)

lemma activePosts_not_completed: "item \<in> set (activePosts d e) \<Longrightarrow> \<not> completed (snd item)"
  unfolding activePosts_def orderByCreatedAtDesc_def by auto

lemma activePosts_stored: "(i, q) \<in> set (activePosts d e) \<Longrightarrow> ((e, i), q) \<in> set (posts d)"
  unfolding activePosts_def orderByCreatedAtDesc_def postsOf_def by auto

lemma completed_not_in_feed:
  assumes "distinct (map fst (posts d))" "getDoc (posts d) (e, i) = Some p" "completed p"
  shows "i \<notin> fst ` set (activePosts d e)"
proof
  assume "i \<in> fst ` set (activePosts d e)"
  then obtain q where q: "(i, q) \<in> set (activePosts d e)" by force
  then have "((e, i), q) \<in> set (posts d)" by (rule activePosts_stored)
  with assms(1) have "getDoc (posts d) (e, i) = Some q"
    unfolding getDoc_def by simp
  with assms(2) have "q = p" by simp
  with q assms(3) activePosts_not_completed [of "(i, q)" d e] show False by simp
qed

subsection \<open>Completion is monotonic\<close>

text \<open>
  Claim C1. A post whose \<open>completed\<close> field is true keeps it true through every sequence
  of \<^verbatim>\<open>claimPost\<close>, \<^verbatim>\<open>markComplete\<close>, \<^verbatim>\<open>createPost\<close> and join operations, whatever their
  arguments; the active-feed query returns no post with \<open>completed\<close> true; and when
  document paths are unique the completed post's id is absent from the active feed of
  its event.
\<close>

theorem completion_monotonic:
  assumes "getDoc (posts d) (e, i) = Some p" and "completed p"
  shows "(\<exists>p'. getDoc (posts (run d as)) (e, i) = Some p' \<and> completed p') \<and>
         (\<forall>e'. \<forall>item \<in> set (activePosts (run d as) e'). completed (snd item) = False) \<and>
         (distinct (map fst (posts d)) \<longrightarrow> i \<notin> fst ` set (activePosts (run d as) e))"
proof (intro conjI impI)
  show "\<exists>p'. getDoc (posts (run d as)) (e, i) = Some p' \<and> completed p'"
    using assms by (rule run_completed)
next
  show "\<forall>e'. \<forall>item \<in> set (activePosts (run d as) e'). completed (snd item) = False"
    using activePosts_not_completed by blast
next
  assume dist: "distinct (map fst (posts d))"
  from run_completed [OF assms] obtain p'
    where "getDoc (posts (run d as)) (e, i) = Some p'" "completed p'" by blast
  with run_distinct [OF dist] show "i \<notin> fst ` set (activePosts (run d as) e)"
    by (rule completed_not_in_feed)
qed

theorem completion_monotonic_witness:
  "getDoc (posts sampleDb) (1, 2) = Some tacos \<and> completed tacos \<and>
   distinct (map fst (posts sampleDb)) \<and>
   (\<exists>p'. getDoc (posts (run sampleDb sampleActions)) (1, 2) = Some p' \<and> completed p') \<and>
   map fst (activePosts (run sampleDb sampleActions) 1) = [3] \<and>
   2 \<notin> fst ` set (activePosts (run sampleDb sampleActions) 1)"
proof -
  have h1: "getDoc (posts sampleDb) (1, 2) = Some tacos"
    by (simp add: sampleDb_def getDoc_def)
  have h2: "completed tacos" by (simp add: tacos_def)
  have h3: "distinct (map fst (posts sampleDb))" by (simp add: sampleDb_def)
  have h4: "map fst (activePosts (run sampleDb sampleActions) 1) = [3]" by code_simp
  from completion_monotonic [OF h1 h2, of sampleActions] h1 h2 h3 h4 show ?thesis by blast
qed

subsection \<open>Marking complete writes one field\<close>

lemma claimed_count_update_all:
  assumes "\<And>p. claimedBy (f p) = claimedBy p"
  shows "length (filter (\<lambda>(j, p). truthy (claimedBy p))
           (map (\<lambda>((e', j), p). (j, p))
              (filter (\<lambda>((e', j), p). e' = e)
                 (map (\<lambda>(k', v). if k' = k then (k', f v) else (k', v)) xs)))) =
         length (filter (\<lambda>(j, p). truthy (claimedBy p))
           (map (\<lambda>((e', j), p). (j, p)) (filter (\<lambda>((e', j), p). e' = e) xs)))"
  by (induction xs) (auto simp: assms split: if_splits)

lemma claimedPosts_allPosts:
  "claimedPosts (renderAnalyticsTab (allPosts d e)) =
     length (filter (\<lambda>(j, p). truthy (claimedBy p)) (postsOf d e))"
proof -
  have "length (filter P (rev (sort_key g xs))) = length (filter P xs)" for P g and xs :: "(doc_id \<times> post) list"
    by (simp add: rev_filter [symmetric] filter_sort)
  then show ?thesis
    by (simp add: renderAnalyticsTab_def allPosts_def orderByCreatedAtDesc_def Let_def)
qed

lemma markComplete_result:
  "snd (markComplete d e i) = d \<or>
   snd (markComplete d e i) =
     d\<lparr>posts := map (\<lambda>(k', v). if k' = (e, i) then (k', v\<lparr>completed := True\<rparr>) else (k', v)) (posts d)\<rparr>"
  unfolding markComplete_def updateDoc_def by simp

lemma markComplete_getDoc:
  "getDoc (posts (snd (markComplete d e i))) k =
     map_option (\<lambda>p. if k = (e, i) then p\<lparr>completed := True\<rparr> else p) (getDoc (posts d) k)"
proof (cases "(e, i) \<in> fst ` set (posts d)")
  case True
  then show ?thesis
    unfolding markComplete_def updateDoc_def getDoc_def
    by (simp add: map_of_update_all option.map_ident)
next
  case False
  then have none: "map_of (posts d) (e, i) = None" by (simp add: map_of_eq_None_iff)
  from False have "snd (markComplete d e i) = d"
    unfolding markComplete_def updateDoc_def by simp
  with none show ?thesis
    unfolding getDoc_def by (cases "k = (e, i)") (simp_all add: option.map_ident)
qed

text \<open>
  Claim C10. \<^verbatim>\<open>markComplete\<close> leaves events, users and notifications as they are, adds
  or removes no post, and changes no field of any post other than \<open>completed\<close> of the
  post it names (so \<open>claimedBy\<close>, \<open>claimedByName\<close>, \<open>claimedByEmail\<close>, \<open>title\<close>,
  \<open>description\<close> and \<open>userId\<close> are as before); the \<open>claimedPosts\<close> counter of every
  event's analytics is therefore unchanged.
\<close>

theorem markComplete_frame:
  "events (snd (markComplete d e i)) = events d \<and>
   users (snd (markComplete d e i)) = users d \<and>
   notifications (snd (markComplete d e i)) = notifications d \<and>
   map fst (posts (snd (markComplete d e i))) = map fst (posts d) \<and>
   getDoc (posts (snd (markComplete d e i))) k =
     map_option (\<lambda>p. if k = (e, i) then p\<lparr>completed := True\<rparr> else p) (getDoc (posts d) k) \<and>
   claimedPosts (renderAnalyticsTab (allPosts (snd (markComplete d e i)) e')) =
     claimedPosts (renderAnalyticsTab (allPosts d e'))"
proof -
  let ?d' = "snd (markComplete d e i)"
  have frame: "events ?d' = events d \<and> users ?d' = users d \<and> notifications ?d' = notifications d"
    using markComplete_result [of d e i] by auto
  have keys: "map fst (posts ?d') = map fst (posts d)"
    using markComplete_result [of d e i] by (auto simp: comp_def case_prod_beta)
  have count: "claimedPosts (renderAnalyticsTab (allPosts ?d' e')) =
      claimedPosts (renderAnalyticsTab (allPosts d e'))"
  proof -
    from markComplete_result [of d e i] consider
      (same) "?d' = d"
      | (upd) "posts ?d' =
          map (\<lambda>(k', v). if k' = (e, i) then (k', v\<lparr>completed := True\<rparr>) else (k', v)) (posts d)"
      by auto
    then show ?thesis
    proof cases
      case same
      then show ?thesis by simp
    next
      case upd
      have "length (filter (\<lambda>(j, p). truthy (claimedBy p)) (postsOf ?d' e')) =
            length (filter (\<lambda>(j, p). truthy (claimedBy p)) (postsOf d e'))"
        unfolding postsOf_def upd by (rule claimed_count_update_all) simp
      then show ?thesis by (simp only: claimedPosts_allPosts)
    qed
  qed
  from frame keys count markComplete_getDoc [of d e i k] show ?thesis by simp
qed

text \<open>Bob has claimed the pizza; completing it keeps the claim and the count of two.\<close>

theorem markComplete_frame_witness:
  "getDoc (posts (snd (markComplete claimedDb 1 1))) (1, 1) = Some (claimedPizza\<lparr>completed := True\<rparr>) \<and>
   getDoc (posts (snd (markComplete claimedDb 1 1))) (1, 2) = Some tacos \<and>
   claimedPosts (renderAnalyticsTab (allPosts (snd (markComplete claimedDb 1 1)) 1)) = 2 \<and>
   claimedPosts (renderAnalyticsTab (allPosts claimedDb 1)) = 2"
proof -
  have g1: "getDoc (posts claimedDb) (1, 1) = Some claimedPizza"
    by (simp add: claimedDb_def getDoc_def)
  have g2: "getDoc (posts claimedDb) (1, 2) = Some tacos"
    by (simp add: claimedDb_def getDoc_def)
  have c: "claimedPosts (renderAnalyticsTab (allPosts claimedDb 1)) = 2" by code_simp
  from markComplete_frame [of claimedDb 1 1 "(1, 1)" 1] markComplete_frame [of claimedDb 1 1 "(1, 2)" 1]
    g1 g2 c show ?thesis by simp
qed

subsection \<open>Claiming and unclaiming\<close>

lemma claimPost_claim:
  assumes "getDoc (posts d) (e, i) = Some p" and "cb \<noteq> Some (uid u)"
  shows "getDoc (posts (snd (claimPost d (Some u) e now i cb owner ttl))) (e, i) =
           Some (p\<lparr>claimedBy := Some (uid u), claimedByName := lookupUserName d (uid u),
                    claimedByEmail := email u\<rparr>)"
proof -
  from updateDoc_Some [OF assms(1)] obtain ps where
    ps: "updateDoc (posts d) (e, i)
           (\<lambda>p. p\<lparr>claimedBy := Some (uid u), claimedByName := lookupUserName d (uid u),
                   claimedByEmail := email u\<rparr>) = Some ps"
    by blast
  from getDoc_updateDoc [OF ps, of "(e, i)"] assms ps show ?thesis
    by (simp add: claimPost_def addDoc_def Let_def)
qed

lemma claimPost_unclaim:
  assumes "getDoc (posts d) (e, i) = Some p"
  shows "getDoc (posts (snd (claimPost d (Some u) e now i (Some (uid u)) owner ttl))) (e, i) =
           Some (p\<lparr>claimedBy := None, claimedByName := None, claimedByEmail := None\<rparr>)"
proof -
  from updateDoc_Some [OF assms(1)] obtain ps where
    ps: "updateDoc (posts d) (e, i)
           (\<lambda>p. p\<lparr>claimedBy := None, claimedByName := None, claimedByEmail := None\<rparr>) = Some ps"
    by blast
  from getDoc_updateDoc [OF ps, of "(e, i)"] assms ps show ?thesis
    by (simp add: claimPost_def Let_def)
qed

text \<open>
  \<^verbatim>\<open>claimPost\<close> itself has no guard: called with a post that somebody else has claimed,
  it replaces the claimant. Only the disabled button keeps that call from happening.
\<close>

lemma claimPost_overwrites:
  assumes "getDoc (posts d) (e, i) = Some p" and "claimedBy p = Some v" and "v \<noteq> uid u"
  shows "\<exists>p'. getDoc (posts (snd (claimPost d (Some u) e now i (Some v) owner ttl))) (e, i) = Some p' \<and>
              claimedBy p' = Some (uid u)"
  using claimPost_claim [OF assms(1), of "Some v" u now owner ttl] assms(3) by simp





text \<open>
  Claim C3. A user who claims a post and then uses the claim control again on the
  updated post leaves it unclaimed: \<open>claimedBy\<close>, \<open>claimedByName\<close> and \<open>claimedByEmail\<close>
  are null and every other field is as it was. The first use is a claim when the post is
  not already claimed by that user; user ids are non-empty; both times the button is
  enabled when the user is not the owner and nobody else holds the claim.
\<close>

theorem claim_then_unclaim:
  assumes "getDoc (posts d) (e, i) = Some p"
    and "uid u \<noteq> []"
    and "claimedBy p \<noteq> Some (uid u)"
  shows "\<exists>p1. getDoc (posts (snd (onPressClaim d (Some u) e now (i, p)))) (e, i) = Some p1 \<and>
           claimedBy p1 = Some (uid u) \<and>
           getDoc (posts (snd (onPressClaim (snd (onPressClaim d (Some u) e now (i, p)))
                                 (Some u) e now' (i, p1)))) (e, i) =
             Some (p\<lparr>claimedBy := None, claimedByName := None, claimedByEmail := None\<rparr>) \<and>
           (userId p \<noteq> uid u \<and> \<not> isClaimed p \<longrightarrow>
              claimButton (Some u) p = Enabled \<and> claimButton (Some u) p1 = Enabled)"
proof -
  let ?d1 = "snd (onPressClaim d (Some u) e now (i, p))"
  let ?p1 = "p\<lparr>claimedBy := Some (uid u), claimedByName := lookupUserName d (uid u),
                claimedByEmail := email u\<rparr>"
  have cb: "js_or (claimedBy p) None \<noteq> Some (uid u)"
    using assms(3) by (simp add: js_or_def)
  have one: "getDoc (posts ?d1) (e, i) = Some ?p1"
    using claimPost_claim [OF assms(1) cb] by (simp add: onPressClaim_def)
  have mine: "js_or (claimedBy ?p1) None = Some (uid u)"
    using assms(2) by (simp add: js_or_def truthy_def)
  have two: "getDoc (posts (snd (onPressClaim ?d1 (Some u) e now' (i, ?p1)))) (e, i) =
      Some (p\<lparr>claimedBy := None, claimedByName := None, claimedByEmail := None\<rparr>)"
    using claimPost_unclaim [OF one, of u now'] mine by (simp add: onPressClaim_def)
  have buttons: "userId p \<noteq> uid u \<and> \<not> isClaimed p \<longrightarrow>
      claimButton (Some u) p = Enabled \<and> claimButton (Some u) ?p1 = Enabled"
    by (simp add: claimButton_def isOwner_def isClaimedByMe_def)
  from one two buttons show ?thesis by simp
qed

theorem claim_then_unclaim_witness:
  "getDoc (posts sampleDb) (1, 1) = Some pizza \<and> uid bob \<noteq> [] \<and>
   claimedBy pizza \<noteq> Some (uid bob) \<and> userId pizza \<noteq> uid bob \<and> \<not> isClaimed pizza \<and>
   (\<exists>p1. getDoc (posts (snd (onPressClaim sampleDb (Some bob) 1 40 (1, pizza)))) (1, 1) = Some p1 \<and>
      claimedBy p1 = Some ''bob'' \<and>
      getDoc (posts (snd (onPressClaim (snd (onPressClaim sampleDb (Some bob) 1 40 (1, pizza)))
                            (Some bob) 1 41 (1, p1)))) (1, 1) = Some pizza \<and>
      claimButton (Some bob) pizza = Enabled \<and> claimButton (Some bob) p1 = Enabled)"
proof -
  have h1: "getDoc (posts sampleDb) (1, 1) = Some pizza" by (simp add: sampleDb_def getDoc_def)
  have h2: "uid bob \<noteq> []" by (simp add: bob_def)
  have h3: "claimedBy pizza \<noteq> Some (uid bob)" by (simp add: pizza_def)
  have h4: "userId pizza \<noteq> uid bob" by (simp add: pizza_def bob_def)
  have h5: "\<not> isClaimed pizza" by (simp add: pizza_def isClaimed_def truthy_def)
  have same: "pizza\<lparr>claimedBy := None, claimedByName := None, claimedByEmail := None\<rparr> = pizza"
    by (simp add: pizza_def)
  have b: "uid bob = ''bob''" by (simp add: bob_def)
  from claim_then_unclaim [OF h1 h2 h3, of 40 41] h1 h2 h3 h4 h5 same b show ?thesis
    by auto
qed

subsection \<open>Claim notifications\<close>

lemma claimPost_notifies:
  assumes "getDoc (posts d) (e, i) = Some p" and "cb \<noteq> Some (uid u)" and "owner \<noteq> uid u"
  shows "notifications (snd (claimPost d (Some u) e now i cb owner ttl)) =
           notifications d @
             [(autoId (map fst (notifications d)),
               \<lparr>notifUserId = owner, notifType = ''claim'',
                message = claimMessage (lookupUserName d (uid u)) (email u) ttl,
                eventId = e, postId = i, read = False, notifCreatedAt = now\<rparr>)]"
proof -
  from updateDoc_Some [OF assms(1)] obtain ps where
    "updateDoc (posts d) (e, i)
       (\<lambda>p. p\<lparr>claimedBy := Some (uid u), claimedByName := lookupUserName d (uid u),
               claimedByEmail := email u\<rparr>) = Some ps"
    by blast
  with assms show ?thesis
    by (simp add: claimPost_def addDoc_def Let_def)
qed

lemma claimPost_own_silent:
  "notifications (snd (claimPost d (Some u) e now i cb (uid u) ttl)) = notifications d"
  by (simp add: claimPost_def Let_def split: option.splits)

lemma claimPost_unclaim_silent:
  "notifications (snd (claimPost d (Some u) e now i (Some (uid u)) owner ttl)) = notifications d"
  by (simp add: claimPost_def Let_def split: option.splits)

text \<open>
  Claim C4. On an unclaimed post owned by A, the claim of a user B other than A appends
  exactly one notification, under a fresh id, whose \<open>userId\<close> is A. A claim by A of A's
  own post appends none (and the claim button is not rendered for A). An unclaim, that
  is a call in which the post's current claimant is the acting user, appends none.
\<close>

theorem notification_targeting:
  "(getDoc (posts d) (e, i) = Some p \<and> \<not> isClaimed p \<and> userId p \<noteq> uid u \<longrightarrow>
      (\<exists>j n. notifications (snd (onPressClaim d (Some u) e now (i, p))) = notifications d @ [(j, n)] \<and>
             notifUserId n = userId p \<and> j \<notin> fst ` set (notifications d))) \<and>
   (userId p = uid u \<longrightarrow>
      notifications (snd (onPressClaim d (Some u) e now (i, p))) = notifications d \<and>
      claimButton (Some u) p = Hidden) \<and>
   (js_or (claimedBy p) None = Some (uid u) \<longrightarrow>
      notifications (snd (onPressClaim d (Some u) e now (i, p))) = notifications d)"
proof (intro conjI impI)
  assume a: "getDoc (posts d) (e, i) = Some p \<and> \<not> isClaimed p \<and> userId p \<noteq> uid u"
  then have cb: "js_or (claimedBy p) None \<noteq> Some (uid u)"
    by (simp add: js_or_def isClaimed_def)
  from a have own: "userId p \<noteq> uid u" by simp
  from a have got: "getDoc (posts d) (e, i) = Some p" by simp
  have fresh: "autoId (map fst (notifications d)) \<notin> fst ` set (notifications d)"
    using autoId_fresh [of "map fst (notifications d)"] by simp
  from claimPost_notifies [OF got cb own, of now "title p"] fresh
  show "\<exists>j n. notifications (snd (onPressClaim d (Some u) e now (i, p))) = notifications d @ [(j, n)] \<and>
          notifUserId n = userId p \<and> j \<notin> fst ` set (notifications d)"
    by (simp add: onPressClaim_def)
next
  assume "userId p = uid u"
  then show "notifications (snd (onPressClaim d (Some u) e now (i, p))) = notifications d"
    by (simp add: onPressClaim_def claimPost_own_silent)
next
  assume "userId p = uid u"
  then show "claimButton (Some u) p = Hidden"
    by (simp add: claimButton_def isOwner_def)
next
  assume "js_or (claimedBy p) None = Some (uid u)"
  then show "notifications (snd (onPressClaim d (Some u) e now (i, p))) = notifications d"
    by (simp add: onPressClaim_def claimPost_unclaim_silent)
qed

theorem notification_targeting_witness:
  "getDoc (posts sampleDb) (1, 1) = Some pizza \<and> \<not> isClaimed pizza \<and> userId pizza \<noteq> uid bob \<and>
   userId pizza = uid alice \<and> js_or (claimedBy claimedPizza) None = Some (uid bob) \<and>
   (\<exists>j n. notifications (snd (onPressClaim sampleDb (Some bob) 1 40 (1, pizza))) = [(j, n)] \<and>
          notifUserId n = ''alice'') \<and>
   notifications (snd (onPressClaim sampleDb (Some alice) 1 40 (1, pizza))) = [] \<and>
   claimButton (Some alice) pizza = Hidden \<and>
   notifications (snd (onPressClaim claimedDb (Some bob) 1 40 (1, claimedPizza))) = []"
proof -
  have h1: "getDoc (posts sampleDb) (1, 1) = Some pizza" by (simp add: sampleDb_def getDoc_def)
  have h2: "\<not> isClaimed pizza" by (simp add: pizza_def isClaimed_def truthy_def)
  have h3: "userId pizza \<noteq> uid bob" by (simp add: pizza_def bob_def)
  have h4: "userId pizza = uid alice" by (simp add: pizza_def alice_def)
  have h5: "js_or (claimedBy claimedPizza) None = Some (uid bob)"
    by (simp add: claimedPizza_def bob_def js_or_def truthy_def)
  have n0: "notifications sampleDb = []" by (simp add: sampleDb_def)
  have n1: "notifications claimedDb = []" by (simp add: claimedDb_def sampleDb_def)
  have o: "userId pizza = ''alice''" by (simp add: pizza_def)
  from notification_targeting [of sampleDb 1 1 pizza bob 40]
       notification_targeting [of sampleDb 1 1 pizza alice 40]
       notification_targeting [of claimedDb 1 1 claimedPizza bob 40]
       h1 h2 h3 h4 h5 n0 n1 o
  show ?thesis by auto
qed

subsection \<open>The notification message\<close>

lemma claimMessage_name:
  "truthy name \<Longrightarrow> claimMessage name mail ttl = the name @ '' claimed your '' @ dquote @ ttl @ dquote"
  by (auto simp: claimMessage_def js_or_def template_def truthy_def split: option.splits)

lemma claimMessage_email:
  "\<not> truthy name \<Longrightarrow> mail = Some m \<Longrightarrow>
   claimMessage name mail ttl = m @ '' claimed your '' @ dquote @ ttl @ dquote"
  by (simp add: claimMessage_def js_or_def template_def)

lemma claimMessage_neither:
  "\<not> truthy name \<Longrightarrow> mail = None \<Longrightarrow>
   claimMessage name mail ttl = ''null claimed your '' @ dquote @ ttl @ dquote"
  by (simp add: claimMessage_def js_or_def template_def)




subsection \<open>Join codes survive normalisation\<close>

lemma chars_plain: "c \<in> set chars \<Longrightarrow> \<not> isSpace c \<and> upperChar c = [of_char c]"
  by (auto simp: chars_def isSpace_def upperChar_def)

lemma dropWhile_none: "\<forall>c \<in> set s. \<not> P c \<Longrightarrow> dropWhile P s = s"
  by (cases s) auto

lemma trim_plain: "\<forall>c \<in> set s. \<not> isSpace c \<Longrightarrow> trim s = s"
  by (simp add: trim_def dropWhile_none)

lemma toUpperCase_plain: "\<forall>c \<in> set s. upperChar c = [of_char c] \<Longrightarrow> toUpperCase s = codeUnits s"
  by (induction s) (simp_all add: toUpperCase_def codeUnits_def)

lemma codeUnits_eq: "codeUnits a = codeUnits b \<longleftrightarrow> a = b"
  unfolding codeUnits_def by (rule inj_map_eq_map) (simp add: inj_def)

lemma validCode_normal:
  assumes "validCode c"
  shows "trim c = c" and "toUpperCase c = codeUnits c" and "c \<noteq> []"
    and "\<not> startsWith c ''GRUBIO:''" and "startsWith (''GRUBIO:'' @ c) ''GRUBIO:''"
    and "substring (''GRUBIO:'' @ c) 7 = c"
proof -
  from assms have mem: "\<forall>x \<in> set c. x \<in> set chars" and len: "length c = 6"
    by (auto simp: validCode_def)
  from mem show "trim c = c" by (intro trim_plain) (simp add: chars_plain)
  from mem show "toUpperCase c = codeUnits c" by (intro toUpperCase_plain) (simp add: chars_plain)
  from len show "c \<noteq> []" by auto
  from len show "\<not> startsWith c ''GRUBIO:''"
    by (auto simp: startsWith_def dest: arg_cong [where f = length])
  show "startsWith (''GRUBIO:'' @ c) ''GRUBIO:''" by (simp add: startsWith_def)
  show "substring (''GRUBIO:'' @ c) 7 = c" by (simp add: substring_def)
qed

subsection \<open>Joining twice\<close>

lemma eventsByJoinCode_member:
  "(i, ev) \<in> set es \<Longrightarrow> (i, ev) \<in> set (eventsByJoinCode es (codeUnits (joinCode ev)))"
  by (simp add: eventsByJoinCode_def)

lemma eventsByJoinCode_unique:
  "distinct (map (joinCode \<circ> snd) es) \<Longrightarrow> (i, ev) \<in> set es \<Longrightarrow>
   eventsByJoinCode es (codeUnits (joinCode ev)) = [(i, ev)]"
proof (induction es)
  case Nil
  then show ?case by simp
next
  case (Cons x xs)
  show ?case
  proof (cases "x = (i, ev)")
    case True
    from Cons.prems(1) True have "\<forall>y \<in> set xs. joinCode (snd y) \<noteq> joinCode ev"
      by (auto simp: image_iff)
    then have "filter (\<lambda>(j, e). codeUnits (joinCode e) = codeUnits (joinCode ev)) xs = []"
      by (auto simp: filter_empty_conv codeUnits_eq)
    with True show ?thesis by (simp add: eventsByJoinCode_def)
  next
    case False
    with Cons.prems have mem: "(i, ev) \<in> set xs" by simp
    with Cons.prems(1) have "joinCode (snd x) \<noteq> joinCode ev"
      by (force simp: image_iff)
    moreover from Cons.IH Cons.prems(1) mem
    have "eventsByJoinCode xs (codeUnits (joinCode ev)) = [(i, ev)]"
      by simp
    ultimately show ?thesis by (simp add: eventsByJoinCode_def case_prod_beta codeUnits_eq)
  qed
qed

lemma joinFirstMatch_member:
  assumes "(i, ev) \<in> set (events d)" and "uid u \<in> set (attendees ev)"
  shows "joined (fst (joinFirstMatch d u (codeUnits (joinCode ev)))) \<and>
         (i, ev) \<in> set (events (snd (joinFirstMatch d u (codeUnits (joinCode ev))))) \<and>
         map fst (events (snd (joinFirstMatch d u (codeUnits (joinCode ev))))) = map fst (events d)"
proof (cases "eventsByJoinCode (events d) (codeUnits (joinCode ev))")
  case Nil
  with eventsByJoinCode_member [OF assms(1)] show ?thesis by simp
next
  case (Cons first rest)
  obtain j e0 where first: "first = (j, e0)" by (cases first)
  from Cons first have "(j, e0) \<in> set (eventsByJoinCode (events d) (codeUnits (joinCode ev)))" by simp
  then have stored: "(j, e0) \<in> set (events d)" by (simp add: eventsByJoinCode_def)
  show ?thesis
  proof (cases "uid u \<in> set (attendees e0)")
    case True
    with Cons first assms(1) show ?thesis by (simp add: joinFirstMatch_def joined_def)
  next
    case False
    let ?f = "\<lambda>e. e\<lparr>attendees := arrayUnion (attendees e) (uid u)\<rparr>"
    from stored have "j \<in> fst ` set (events d)" by force
    then have upd: "updateDoc (events d) j ?f =
        Some (map (\<lambda>(k', v). if k' = j then (k', ?f v) else (k', v)) (events d))"
      by (simp add: updateDoc_def)
    from assms(2) have "?f ev = ev" by (simp add: arrayUnion_def)
    with assms(1) have "(i, ev) \<in> set (map (\<lambda>(k', v). if k' = j then (k', ?f v) else (k', v)) (events d))"
      by (force simp: image_iff)
    with Cons first False upd keys_updateDoc [OF upd] show ?thesis
      by (simp add: joinFirstMatch_def joined_def)
  qed
qed

lemma joinFirstMatch_unique:
  assumes "(i, ev) \<in> set (events d)" and "uid u \<in> set (attendees ev)"
    and "distinct (map (joinCode \<circ> snd) (events d))"
  shows "joinFirstMatch d u (codeUnits (joinCode ev)) = (AlreadyJoined i, d)"
  using eventsByJoinCode_unique [OF assms(3) assms(1)] assms(2)
  by (simp add: joinFirstMatch_def)
text \<open>
  Claim C5. A signed-in user who is already among an event's attendees joins again with
  the event's join code (a code as \<^verbatim>\<open>generateJoinCode\<close> builds them), typed or scanned,
  with or without the \<^verbatim>\<open>GRUBIO:\<close> prefix. The operation ends in one of its two
  successes, and the event's document is as before, no documents being added or removed.
  When join codes are unique, the outcome is the "already joined" one for that event and
  the whole store is unchanged: nothing is written.
\<close>

theorem join_idempotent:
  assumes "(i, ev) \<in> set (events d)"
    and "uid u \<in> set (attendees ev)"
    and "validCode (joinCode ev)"
  shows "(joined (fst (handleJoinEvent d (Some u) (joinCode ev))) \<and>
          (i, ev) \<in> set (events (snd (handleJoinEvent d (Some u) (joinCode ev)))) \<and>
          map fst (events (snd (handleJoinEvent d (Some u) (joinCode ev)))) = map fst (events d)) \<and>
         (data = ''GRUBIO:'' @ joinCode ev \<or> data = joinCode ev \<longrightarrow>
            joined (fst (barcodeScanned d (Some u) False data)) \<and>
            (i, ev) \<in> set (events (snd (snd (barcodeScanned d (Some u) False data)))) \<and>
            map fst (events (snd (snd (barcodeScanned d (Some u) False data)))) = map fst (events d)) \<and>
         (distinct (map (joinCode \<circ> snd) (events d)) \<longrightarrow>
            handleJoinEvent d (Some u) (joinCode ev) = (AlreadyJoined i, d) \<and>
            barcodeScanned d (Some u) False (''GRUBIO:'' @ joinCode ev) = (AlreadyJoined i, True, d) \<and>
            barcodeScanned d (Some u) False (joinCode ev) = (AlreadyJoined i, True, d))"
proof -
  note n = validCode_normal [OF assms(3)]
  let ?r = "joinFirstMatch d u (codeUnits (joinCode ev))"
  have typed: "handleJoinEvent d (Some u) (joinCode ev) = ?r"
    by (simp add: handleJoinEvent_def n)
  have qr1: "barcodeScanned d (Some u) False (''GRUBIO:'' @ joinCode ev) = (fst ?r, True, snd ?r)"
    by (simp only: barcodeScanned_def n Let_def if_True if_False option.case)
  have qr2: "barcodeScanned d (Some u) False (joinCode ev) = (fst ?r, True, snd ?r)"
    by (simp only: barcodeScanned_def n Let_def if_True if_False option.case)
  note m = joinFirstMatch_member [OF assms(1,2)]
  have one: "joined (fst (handleJoinEvent d (Some u) (joinCode ev))) \<and>
          (i, ev) \<in> set (events (snd (handleJoinEvent d (Some u) (joinCode ev)))) \<and>
          map fst (events (snd (handleJoinEvent d (Some u) (joinCode ev)))) = map fst (events d)"
    unfolding typed by (rule m)
  have two: "joined (fst (barcodeScanned d (Some u) False data)) \<and>
            (i, ev) \<in> set (events (snd (snd (barcodeScanned d (Some u) False data)))) \<and>
            map fst (events (snd (snd (barcodeScanned d (Some u) False data)))) = map fst (events d)"
    if "data = ''GRUBIO:'' @ joinCode ev \<or> data = joinCode ev"
  proof -
    from that qr1 qr2 have "barcodeScanned d (Some u) False data = (fst ?r, True, snd ?r)"
      by blast
    with m show ?thesis by (simp only: fst_conv snd_conv)
  qed
  have three: "handleJoinEvent d (Some u) (joinCode ev) = (AlreadyJoined i, d) \<and>
            barcodeScanned d (Some u) False (''GRUBIO:'' @ joinCode ev) = (AlreadyJoined i, True, d) \<and>
            barcodeScanned d (Some u) False (joinCode ev) = (AlreadyJoined i, True, d)"
    if "distinct (map (joinCode \<circ> snd) (events d))"
    unfolding typed qr1 qr2 joinFirstMatch_unique [OF assms(1,2) that] by simp
  from one two three show ?thesis by blast
qed

theorem join_idempotent_witness:
  "(1, cookout) \<in> set (events sampleDb) \<and> uid bob \<in> set (attendees cookout) \<and>
   validCode (joinCode cookout) \<and> distinct (map (joinCode \<circ> snd) (events sampleDb)) \<and>
   handleJoinEvent sampleDb (Some bob) ''AB12CD'' = (AlreadyJoined 1, sampleDb) \<and>
   barcodeScanned sampleDb (Some bob) False ''GRUBIO:AB12CD'' = (AlreadyJoined 1, True, sampleDb) \<and>
   barcodeScanned sampleDb (Some bob) False ''AB12CD'' = (AlreadyJoined 1, True, sampleDb)"
proof -
  have h1: "(1, cookout) \<in> set (events sampleDb)" by (simp add: sampleDb_def)
  have h2: "uid bob \<in> set (attendees cookout)" by (simp add: bob_def cookout_def)
  have h3: "validCode (joinCode cookout)" by (simp add: validCode_def cookout_def chars_def)
  have h4: "distinct (map (joinCode \<circ> snd) (events sampleDb))" by (simp add: sampleDb_def)
  have c: "joinCode cookout = ''AB12CD''" by (simp add: cookout_def)
  from join_idempotent [OF h1 h2 h3] h4 have
    "handleJoinEvent sampleDb (Some bob) (joinCode cookout) = (AlreadyJoined 1, sampleDb) \<and>
     barcodeScanned sampleDb (Some bob) False (''GRUBIO:'' @ joinCode cookout) = (AlreadyJoined 1, True, sampleDb) \<and>
     barcodeScanned sampleDb (Some bob) False (joinCode cookout) = (AlreadyJoined 1, True, sampleDb)"
    by blast
  with h1 h2 h3 h4 show ?thesis unfolding c by simp
qed

subsection \<open>Joining with an unknown code\<close>

lemma joinFirstMatch_unknown:
  "key \<notin> (codeUnits \<circ> joinCode \<circ> snd) ` set (events d) \<Longrightarrow> joinFirstMatch d u key = (NotFound, d)"
proof -
  assume "key \<notin> (codeUnits \<circ> joinCode \<circ> snd) ` set (events d)"
  then have "eventsByJoinCode (events d) key = []"
    by (auto simp: eventsByJoinCode_def filter_empty_conv image_iff)
  then show ?thesis by (simp add: joinFirstMatch_def)
qed

text \<open>
  Outside ASCII: a no-break space is white space for \<^verbatim>\<open>trim\<close>, so an entry made of it is
  blank; the sharp s becomes two letters, and the small y with diaeresis leaves Latin-1.
\<close>

lemma latin1_examples:
  "trim [CHR 0xA0, CHR ''a'', CHR 0xA0] = ''a'' \<and> trim [CHR 0xA0] = [] \<and>
   toUpperCase [CHR 0xDF, CHR 0xE9, CHR 0xF7, CHR 0xFF] = [83, 83, 201, 247, 376] \<and>
   fst (handleJoinEvent sampleDb (Some carol) [CHR 0xA0]) = ValidationError"
  by code_simp

text \<open>
  Claim C9 as the code has it. A signed-in user's typed code that is not blank, trimmed
  and upper-cased, or a scanned payload (with the scanner idle) without its \<^verbatim>\<open>GRUBIO:\<close>
  prefix, upper-cased, that is no event's join code ends in "not found" and leaves the
  store unchanged. Whoever the user and whatever the entry, a typed code whose key is no
  event's join code leaves the store unchanged, and so does such a scanned payload.
\<close>

theorem join_unknown_code:
  "(toUpperCase (trim code) \<notin> (codeUnits \<circ> joinCode \<circ> snd) ` set (events d) \<longrightarrow>
      snd (handleJoinEvent d user code) = d \<and>
      (trim code \<noteq> [] \<longrightarrow> handleJoinEvent d (Some u) code = (NotFound, d))) \<and>
   (toUpperCase (if startsWith data ''GRUBIO:'' then substring data 7 else data)
        \<notin> (codeUnits \<circ> joinCode \<circ> snd) ` set (events d) \<longrightarrow>
      snd (snd (barcodeScanned d user scanned data)) = d \<and>
      barcodeScanned d (Some u) False data = (NotFound, True, d))"
proof (intro conjI impI)
  assume k: "toUpperCase (trim code) \<notin> (codeUnits \<circ> joinCode \<circ> snd) ` set (events d)"
  show "snd (handleJoinEvent d user code) = d"
    by (simp add: handleJoinEvent_def joinFirstMatch_unknown [OF k] split: option.splits)
  assume "trim code \<noteq> []"
  then show "handleJoinEvent d (Some u) code = (NotFound, d)"
    by (simp add: handleJoinEvent_def joinFirstMatch_unknown [OF k])
next
  assume k: "toUpperCase (if startsWith data ''GRUBIO:'' then substring data 7 else data)
      \<notin> (codeUnits \<circ> joinCode \<circ> snd) ` set (events d)"
  have nf: "joinFirstMatch d x
      (toUpperCase (if startsWith data ''GRUBIO:'' then substring data 7 else data)) = (NotFound, d)" for x
    using k by (rule joinFirstMatch_unknown)
  show "snd (snd (barcodeScanned d user scanned data)) = d"
    unfolding barcodeScanned_def Let_def nf by (simp split: option.splits)
  show "barcodeScanned d (Some u) False data = (NotFound, True, d)"
    unfolding barcodeScanned_def Let_def nf by simp
qed

theorem join_unknown_code_witness:
  "toUpperCase (trim '' zz99zz '') \<notin> (codeUnits \<circ> joinCode \<circ> snd) ` set (events sampleDb) \<and>
   trim '' zz99zz '' \<noteq> [] \<and>
   toUpperCase (if startsWith ''GRUBIO:zz99zz'' ''GRUBIO:'' then substring ''GRUBIO:zz99zz'' 7
                else ''GRUBIO:zz99zz'') \<notin> (codeUnits \<circ> joinCode \<circ> snd) ` set (events sampleDb) \<and>
   handleJoinEvent sampleDb (Some carol) '' zz99zz '' = (NotFound, sampleDb) \<and>
   barcodeScanned sampleDb (Some carol) False ''GRUBIO:zz99zz'' = (NotFound, True, sampleDb)"
proof -
  have t: "trim '' zz99zz '' = ''zz99zz''" by code_simp
  have k1: "toUpperCase (trim '' zz99zz '') = codeUnits ''ZZ99ZZ''" by code_simp
  have k2: "toUpperCase (if startsWith ''GRUBIO:zz99zz'' ''GRUBIO:'' then substring ''GRUBIO:zz99zz'' 7
                else ''GRUBIO:zz99zz'') = codeUnits ''ZZ99ZZ''" by code_simp
  have codes: "(codeUnits \<circ> joinCode \<circ> snd) ` set (events sampleDb) = {codeUnits ''AB12CD''}"
    by (simp add: sampleDb_def cookout_def)
  have h1: "toUpperCase (trim '' zz99zz '') \<notin> (codeUnits \<circ> joinCode \<circ> snd) ` set (events sampleDb)"
    unfolding k1 codes by (simp add: codeUnits_eq)
  have h2: "trim '' zz99zz '' \<noteq> []" unfolding t by simp
  have h3: "toUpperCase (if startsWith ''GRUBIO:zz99zz'' ''GRUBIO:'' then substring ''GRUBIO:zz99zz'' 7
                else ''GRUBIO:zz99zz'') \<notin> (codeUnits \<circ> joinCode \<circ> snd) ` set (events sampleDb)"
    unfolding k2 codes by (simp add: codeUnits_eq)
  from join_unknown_code [of "'' zz99zz ''" sampleDb "Some carol" carol "''GRUBIO:zz99zz''" False]
    h1 h2 h3 show ?thesis by blast
qed

text \<open>
  Claim C9 as stated fails on a blank entry: its key, the empty string, is no event's
  join code, and the form answers "please enter a join code" before any lookup.
\<close>

theorem join_blank_code_counterexample:
  "toUpperCase (trim ''   '') \<notin> (codeUnits \<circ> joinCode \<circ> snd) ` set (events sampleDb) \<and>
   handleJoinEvent sampleDb (Some carol) ''   '' = (ValidationError, sampleDb) \<and>
   fst (handleJoinEvent sampleDb (Some carol) ''   '') \<noteq> NotFound"
proof -
  have t: "trim ''   '' = []" by code_simp
  have k: "toUpperCase (trim ''   '') = []" by code_simp
  have codes: "(codeUnits \<circ> joinCode \<circ> snd) ` set (events sampleDb) = {codeUnits ''AB12CD''}"
    by (simp add: sampleDb_def cookout_def)
  have h: "toUpperCase (trim ''   '') \<notin> (codeUnits \<circ> joinCode \<circ> snd) ` set (events sampleDb)"
    unfolding k codes by (simp add: codeUnits_def)
  have r: "handleJoinEvent sampleDb (Some carol) ''   '' = (ValidationError, sampleDb)"
    by (simp add: handleJoinEvent_def t)
  from h r show ?thesis by simp
qed

subsection \<open>Join codes\<close>

lemma charAt_chars: "i < length chars \<Longrightarrow> \<exists>c \<in> set chars. charAt chars i = [c]"
  by (auto simp: charAt_def)

lemma generateJoinCode_valid:
  assumes "\<forall>n. rnd n < length chars"
  shows "validCode (generateJoinCode rnd k)"
proof -
  have six: "[0..<6] = [0, 1, 2, 3, 4, 5]" by (simp add: upt_rec)
  have "\<exists>c \<in> set chars. charAt chars (rnd n) = [c]" for n
    using assms by (intro charAt_chars) simp
  then obtain c where c: "\<And>n. c n \<in> set chars \<and> charAt chars (rnd n) = [c n]"
    by metis
  then have "generateJoinCode rnd k = [c k, c (k + 1), c (k + 2), c (k + 3), c (k + 4), c (k + 5)]"
    by (simp add: generateJoinCode_def six)
  with c show ?thesis by (simp add: validCode_def)
qed

text \<open>
  \<^verbatim>\<open>create-event.tsx\<close> as it is: \<^verbatim>\<open>query\<close> is not imported, so the uniqueness check throws
  at its first use, whatever the store and the code.
\<close>

lemma isJoinCodeUnique_shipped:
  "isJoinCodeUnique createEventImports es code = Inl (ReferenceError ''query'')"
  by (simp add: isJoinCodeUnique_def createEventImports_def)

lemma createEvent_shipped:
  "createEvent createEventImports d (reqUser r) (reqTitle r) (reqDescription r) (reqDate r) (reqNow r) rnd k =
     Some (if reqUser r = None then (NotLoggedIn, d, k)
           else if accepted r then (Thrown (ReferenceError ''query''), d, k + 6)
           else (ValidationError, d, k))"
  by (auto simp: createEvent_def isJoinCodeUnique_shipped accepted_def split: option.splits)

lemma createEvents_shipped:
  "createEvents createEventImports d reqs rnd k = Some (d, k + 6 * length (filter accepted reqs))"
proof (induction reqs arbitrary: k)
  case Nil
  then show ?case by simp
next
  case (Cons r rs)
  show ?case
    by (simp add: createEvent_shipped Cons.IH accepted_def)
qed

text \<open>
  With \<^verbatim>\<open>query\<close>, \<^verbatim>\<open>where\<close> and \<^verbatim>\<open>getDocs\<close> imported as well, the check is the query's
  emptiness and the loop is the generate-and-check of the join codes.
\<close>

lemma unbound_None: "set names \<subseteq> set scope \<Longrightarrow> unbound scope names = None"
  by (induction names) auto

lemma isJoinCodeUnique_repaired:
  assumes "set repairedImports \<subseteq> set scope"
  shows "isJoinCodeUnique scope es code = Inr (code \<notin> (joinCode \<circ> snd) ` set es)"
proof -
  have "unbound scope [''collection'', ''query'', ''where'', ''getDocs''] = None"
    using assms by (intro unbound_None) (auto simp: repairedImports_def)
  then show ?thesis
    by (auto simp: isJoinCodeUnique_def eventsByJoinCode_def filter_empty_conv image_iff codeUnits_eq)
qed

lemma retryJoinCode_sound:
  assumes "retryJoinCode scope es rnd k code isUnique = Some y"
  shows "set repairedImports \<subseteq> set scope \<longrightarrow> isUnique = (code \<notin> (joinCode \<circ> snd) ` set es) \<longrightarrow>
         (\<exists>c. fst y = Inr c \<and> c \<notin> (joinCode \<circ> snd) ` set es \<and>
              ((\<forall>n. rnd n < length chars) \<longrightarrow> validCode code \<longrightarrow> validCode c))"
proof (rule retryJoinCode.raw_induct
        [where P = "\<lambda>scope es rnd k code isUnique y.
            set repairedImports \<subseteq> set scope \<longrightarrow> isUnique = (code \<notin> (joinCode \<circ> snd) ` set es) \<longrightarrow>
            (\<exists>c. fst y = Inr c \<and> c \<notin> (joinCode \<circ> snd) ` set es \<and>
                 ((\<forall>n. rnd n < length chars) \<longrightarrow> validCode code \<longrightarrow> validCode c))",
         OF _ assms], goal_cases)
  case (1 f scope es rnd k code isUnique y)
  show ?case
  proof (intro impI)
    assume imp: "set repairedImports \<subseteq> set scope"
      and iu: "isUnique = (code \<notin> (joinCode \<circ> snd) ` set es)"
    show "\<exists>c. fst y = Inr c \<and> c \<notin> (joinCode \<circ> snd) ` set es \<and>
            ((\<forall>n. rnd n < length chars) \<longrightarrow> validCode code \<longrightarrow> validCode c)"
    proof (cases isUnique)
      case True
      with 1(2) iu show ?thesis by auto
    next
      case False
      let ?next = "generateJoinCode rnd k"
      from False 1(2) isJoinCodeUnique_repaired [OF imp, of es ?next]
      have "f scope es rnd (k + 6) ?next (?next \<notin> (joinCode \<circ> snd) ` set es) = Some y"
        by simp
      from 1(1) [OF this] imp obtain c where
        "fst y = Inr c" "c \<notin> (joinCode \<circ> snd) ` set es"
        "(\<forall>n. rnd n < length chars) \<longrightarrow> validCode ?next \<longrightarrow> validCode c"
        by blast
      then show ?thesis using generateJoinCode_valid [of rnd k] by blast
    qed
  qed
qed

text \<open>The loop returns as soon as one of the codes it draws is free.\<close>

lemma retryJoinCode_returns:
  assumes "set repairedImports \<subseteq> set scope"
  shows "generateJoinCode rnd (k + 6 * m) \<notin> (joinCode \<circ> snd) ` set es \<Longrightarrow>
   \<exists>y. retryJoinCode scope es rnd (k + 6) (generateJoinCode rnd k)
          (generateJoinCode rnd k \<notin> (joinCode \<circ> snd) ` set es) = Some y"
proof (induction m arbitrary: k)
  case 0
  then show ?case by (subst retryJoinCode.simps) simp
next
  case (Suc m)
  show ?case
  proof (cases "generateJoinCode rnd k \<notin> (joinCode \<circ> snd) ` set es")
    case True
    then show ?thesis by (subst retryJoinCode.simps) simp
  next
    case False
    from Suc.prems have "generateJoinCode rnd (k + 6 + 6 * m) \<notin> (joinCode \<circ> snd) ` set es"
      by (simp add: algebra_simps)
    from Suc.IH [OF this] obtain y where
      "retryJoinCode scope es rnd (k + 6 + 6) (generateJoinCode rnd (k + 6))
         (generateJoinCode rnd (k + 6) \<notin> (joinCode \<circ> snd) ` set es) = Some y" by blast
    with False show ?thesis
      by (subst retryJoinCode.simps) (simp add: isJoinCodeUnique_repaired [OF assms])
  qed
qed

lemma createEvent_events:
  assumes "set repairedImports \<subseteq> set scope"
    and "createEvent scope d (reqUser r) (reqTitle r) (reqDescription r) (reqDate r) (reqNow r) rnd k
             = Some (out, d', k')"
  shows "(accepted r \<longrightarrow>
            (\<exists>i ev. events d' = events d @ [(i, ev)] \<and>
               joinCode ev \<notin> (joinCode \<circ> snd) ` set (events d) \<and>
               ((\<forall>n. rnd n < length chars) \<longrightarrow> validCode (joinCode ev)))) \<and>
         (\<not> accepted r \<longrightarrow> events d' = events d)"
proof (cases "accepted r")
  case False
  with assms(2) show ?thesis
    by (auto simp: createEvent_def accepted_def split: option.splits if_splits)
next
  case True
  then obtain u where u: "reqUser r = Some u" by (auto simp: accepted_def)
  from True have filled: "reqTitle r \<noteq> []" "reqDescription r \<noteq> []" "reqDate r \<noteq> []"
    by (simp_all add: accepted_def)
  let ?first = "generateJoinCode rnd k"
  have add: "unbound scope [''collection'', ''addDoc'', ''Timestamp''] = None"
    using assms(1) by (intro unbound_None) (auto simp: repairedImports_def)
  note chk = isJoinCodeUnique_repaired [OF assms(1), of "events d" ?first]
  from assms(2) u filled chk
  obtain y where loop: "retryJoinCode scope (events d) rnd (k + 6) ?first
        (?first \<notin> (joinCode \<circ> snd) ` set (events d)) = Some y"
    by (auto simp: createEvent_def split: option.splits)
  from retryJoinCode_sound [OF loop] assms(1) generateJoinCode_valid [of rnd k]
  obtain code where code: "fst y = Inr code" "code \<notin> (joinCode \<circ> snd) ` set (events d)"
    "(\<forall>n. rnd n < length chars) \<longrightarrow> validCode code"
    by blast
  then obtain k2 where y: "y = (Inr code, k2)" by (cases y) simp
  from assms(2) u filled chk loop add
  have "events d' = events d @
       [(autoId (map fst (events d)),
         \<lparr>eventTitle = reqTitle r, eventDescription = reqDescription r, date = reqDate r,
          createdBy = uid u, attendees = [uid u], joinCode = code, eventCreatedAt = reqNow r\<rparr>)]"
    unfolding y by (auto simp: createEvent_def addDoc_def Let_def)
  with code True show ?thesis by simp
qed

lemma createEvents_codes:
  assumes "set repairedImports \<subseteq> set scope"
  shows "createEvents scope d reqs rnd k = Some (d', k') \<Longrightarrow>
   \<exists>new. events d' = events d @ new \<and> length new = length (filter accepted reqs) \<and>
     distinct (map (joinCode \<circ> snd) new) \<and>
     (\<forall>x \<in> set new. joinCode (snd x) \<notin> (joinCode \<circ> snd) ` set (events d)) \<and>
     ((\<forall>n. rnd n < length chars) \<longrightarrow> (\<forall>x \<in> set new. validCode (joinCode (snd x))))"
proof (induction reqs arbitrary: d k)
  case Nil
  then show ?case by simp
next
  case (Cons r rs)
  from Cons.prems obtain out d1 k1 where
    one: "createEvent scope d (reqUser r) (reqTitle r) (reqDescription r) (reqDate r) (reqNow r) rnd k
            = Some (out, d1, k1)"
    and rest: "createEvents scope d1 rs rnd k1 = Some (d', k')"
    by (auto split: option.splits)
  from Cons.IH [OF rest] obtain new where new:
    "events d' = events d1 @ new" "length new = length (filter accepted rs)"
    "distinct (map (joinCode \<circ> snd) new)"
    "\<forall>x \<in> set new. joinCode (snd x) \<notin> (joinCode \<circ> snd) ` set (events d1)"
    "(\<forall>n. rnd n < length chars) \<longrightarrow> (\<forall>x \<in> set new. validCode (joinCode (snd x)))"
    by blast
  show ?case
  proof (cases "accepted r")
    case False
    with createEvent_events [OF assms one] have same: "events d1 = events d" by simp
    from new False show ?thesis unfolding same by (intro exI [of _ new]) (simp add: comp_def)
  next
    case True
    with createEvent_events [OF assms one] obtain i ev where ev:
      "events d1 = events d @ [(i, ev)]"
      "joinCode ev \<notin> (joinCode \<circ> snd) ` set (events d)"
      "(\<forall>n. rnd n < length chars) \<longrightarrow> validCode (joinCode ev)"
      by blast
    let ?new = "(i, ev) # new"
    have "events d' = events d @ ?new" using new(1) ev(1) by simp
    moreover have "length ?new = length (filter accepted (r # rs))" using new(2) True by simp
    moreover have "distinct (map (joinCode \<circ> snd) ?new)"
      using new(3,4) ev(1) by (auto simp: image_iff)
    moreover have "\<forall>x \<in> set ?new. joinCode (snd x) \<notin> (joinCode \<circ> snd) ` set (events d)"
      using new(4) ev(1,2) by (auto simp: image_iff)
    moreover have "(\<forall>n. rnd n < length chars) \<longrightarrow> (\<forall>x \<in> set ?new. validCode (joinCode (snd x)))"
      using new(5) ev(3) by auto
    ultimately show ?thesis by blast
  qed
qed

text \<open>
  What the claim says holds with the three names imported: when a sequence of creations
  comes to an end, it has appended one event per accepted request, with pairwise distinct
  join codes that no earlier event has, each of six characters among \<^verbatim>\<open>A\<close>-\<^verbatim>\<open>Z\<close> and
  \<^verbatim>\<open>0\<close>-\<^verbatim>\<open>9\<close> when the draws are indices into the alphabet.
\<close>

lemma join_codes_distinct_when_imported:
  assumes "createEvents repairedImports d reqs rnd k = Some (d', k')"
  shows "\<exists>new. events d' = events d @ new \<and> length new = length (filter accepted reqs) \<and>
     distinct (map (joinCode \<circ> snd) new) \<and>
     (\<forall>x \<in> set new. joinCode (snd x) \<notin> (joinCode \<circ> snd) ` set (events d)) \<and>
     ((\<forall>n. rnd n < length chars) \<longrightarrow>
        (\<forall>x \<in> set new. length (joinCode (snd x)) = 6 \<and>
           set (joinCode (snd x)) \<subseteq> set ''ABCDEFGHIJKLMNOPQRSTUVWXYZ0123456789''))"
  using createEvents_codes [OF subset_refl assms] unfolding validCode_def chars_def by blast

lemma join_codes_distinct_sample:
  "map_option (\<lambda>(d', k'). (map (joinCode \<circ> snd) (events d'), k'))
     (createEvents repairedImports sampleDb sampleRequests sampleRnd 0) =
     Some ([''AB12CD'', ''AAAAAA'', ''BBBBBB''], 18)"
  by code_simp

text \<open>
  Claim C2, on the file as it is. Alice's creation with a filled form draws one code,
  fails on the unbound \<^verbatim>\<open>query\<close> and writes nothing; the three sample requests, two of
  them acceptable, leave the events as they were, so no join code is ever stored. With
  constant draws, the codes generated by two creations are even equal.
\<close>

theorem createEvent_unbound_query:
  "isJoinCodeUnique createEventImports (events sampleDb) (generateJoinCode sampleRnd 0)
     = Inl (ReferenceError ''query'') \<and>
   map_option (\<lambda>(out, d', k'). (out, events d' = events sampleDb, k'))
     (createEvent createEventImports sampleDb (Some alice) ''Bake sale'' ''Cookies'' ''2025-11-01'' 50
        sampleRnd 0) = Some (Thrown (ReferenceError ''query''), True, 6) \<and>
   map_option (\<lambda>(d', k'). (events d' = events sampleDb, k'))
     (createEvents createEventImports sampleDb sampleRequests sampleRnd 0) = Some (True, 12) \<and>
   generateJoinCode sampleRnd 0 = ''AAAAAA'' \<and> generateJoinCode sampleRnd 6 = ''AAAAAA''"
proof -
  have g: "generateJoinCode sampleRnd 0 = ''AAAAAA'' \<and> generateJoinCode sampleRnd 6 = ''AAAAAA''"
    by code_simp
  have a: "length (filter accepted sampleRequests) = 2" by code_simp
  have "createEvent createEventImports sampleDb (Some alice) ''Bake sale'' ''Cookies'' ''2025-11-01'' 50
        sampleRnd 0 = Some (Thrown (ReferenceError ''query''), sampleDb, 6)"
    by (simp add: createEvent_def isJoinCodeUnique_shipped)
  with g a show ?thesis
    by (simp add: isJoinCodeUnique_shipped createEvents_shipped)
qed

subsection \<open>Rounding to a double\<close>

lemma pow2_pos: "0 < pow2 e"
  by (simp add: pow2_def)

lemma pow2_powi: "pow2 e = 2 powi e"
  by (simp add: pow2_def power_int_def power_divide inverse_eq_divide)

lemma pow2_mono: "e \<le> e' \<Longrightarrow> pow2 e \<le> pow2 e'"
  by (simp add: pow2_powi power_int_increasing)

lemma roundTiesToEven_near: "\<bar>of_int (roundTiesToEven m) - m\<bar> \<le> 1 / 2"
proof -
  define d where "d = m - of_int \<lfloor>m\<rfloor>"
  have d: "0 \<le> d" "d < 1" unfolding d_def by linarith+
  have "roundTiesToEven m = \<lfloor>m\<rfloor> \<and> d \<le> 1 / 2 \<or> roundTiesToEven m = \<lfloor>m\<rfloor> + 1 \<and> 1 / 2 \<le> d"
    by (auto simp: roundTiesToEven_def Let_def d_def)
  then show ?thesis
  proof
    assume a: "roundTiesToEven m = \<lfloor>m\<rfloor> \<and> d \<le> 1 / 2"
    then have "of_int (roundTiesToEven m) - m = - d" by (simp add: d_def)
    with a d show ?thesis by simp
  next
    assume a: "roundTiesToEven m = \<lfloor>m\<rfloor> + 1 \<and> 1 / 2 \<le> d"
    then have "of_int (roundTiesToEven m) - m = 1 - d" by (simp add: d_def)
    with a d show ?thesis by simp
  qed
qed

lemma roundTiesToEven_nonneg: "0 \<le> m \<Longrightarrow> 0 \<le> roundTiesToEven m"
proof -
  assume "0 \<le> m"
  then have "0 \<le> \<lfloor>m\<rfloor>" by simp
  then show ?thesis by (auto simp: roundTiesToEven_def Let_def)
qed

lemma ilog2_le_7:
  assumes "0 < x" and "x < 128"
  shows "ilog2 x \<le> 7"
proof -
  obtain a b where ab: "quotient_of x = (a, b)" by (cases "quotient_of x")
  then have b: "0 < b" by (rule quotient_of_denom_pos)
  from ab have x: "x = of_int a / of_int b" by (rule quotient_of_div)
  with assms(1) b have a: "0 < a" by (simp add: zero_less_divide_iff)
  have "bitlen a - bitlen b \<le> 7"
  proof (rule ccontr)
    assume "\<not> bitlen a - bitlen b \<le> 7"
    then have big: "bitlen b + 7 \<le> bitlen a - 1" by simp
    from bitlen_bounds [OF a] have "2 ^ nat (bitlen a - 1) \<le> a" by simp
    moreover from bitlen_bounds [OF b] have "b < 2 ^ nat (bitlen b)" by simp
    moreover have "(2::int) ^ nat (bitlen b + 7) \<le> 2 ^ nat (bitlen a - 1)"
      using big by (intro power_increasing) auto
    moreover have "(2::int) ^ nat (bitlen b + 7) = 128 * 2 ^ nat (bitlen b)"
      using bitlen_nonneg [of b] by (simp add: nat_add_distrib power_add)
    ultimately have "128 * b < a" by linarith
    then have "(128::rat) * of_int b < of_int a"
      by (metis of_int_less_iff of_int_mult of_int_numeral)
    with b have "128 < x" unfolding x by (simp add: pos_less_divide_eq)
    with assms(2) show False by simp
  qed
  then show ?thesis
    by (auto simp: ilog2_def ab Let_def)
qed

lemma toDouble_nonneg: "0 \<le> toDouble x"
proof (cases "x \<le> 0")
  case True
  then show ?thesis by (simp add: toDouble_def)
next
  case False
  let ?q = "pow2 (max (ilog2 x - 52) (- 1074))"
  from False pow2_pos [of "max (ilog2 x - 52) (- 1074)"] have "0 \<le> x / ?q" by simp
  then have "0 \<le> roundTiesToEven (x / ?q)" by (rule roundTiesToEven_nonneg)
  with False pow2_pos [of "max (ilog2 x - 52) (- 1074)"] show ?thesis
    by (simp add: toDouble_def Let_def)
qed

lemma toDouble_near:
  assumes "0 < x" and "x < 128"
  shows "\<bar>toDouble x - x\<bar> \<le> 1 / 2 ^ 46"
proof -
  let ?q = "pow2 (max (ilog2 x - 52) (- 1074))"
  have q: "0 < ?q" by (rule pow2_pos)
  from ilog2_le_7 [OF assms] have "max (ilog2 x - 52) (- 1074) \<le> - 45" by simp
  then have "?q \<le> pow2 (- 45)" by (rule pow2_mono)
  then have q45: "?q \<le> 1 / 2 ^ 45" by (simp add: pow2_def)
  have "toDouble x - x = ?q * (of_int (roundTiesToEven (x / ?q)) - x / ?q)"
    using assms(1) q by (simp add: toDouble_def Let_def algebra_simps)
  then have "\<bar>toDouble x - x\<bar> = ?q * \<bar>of_int (roundTiesToEven (x / ?q)) - x / ?q\<bar>"
    using q by (simp add: abs_mult)
  also have "\<dots> \<le> ?q * (1 / 2)"
    using q roundTiesToEven_near [of "x / ?q"] by (intro mult_left_mono) simp_all
  also have "\<dots> \<le> 1 / 2 ^ 45 * (1 / 2)"
    using q45 by (intro mult_right_mono) simp_all
  finally show ?thesis by simp
qed

text \<open>The double computed for \<^verbatim>\<open>(c / t) * 100\<close> is within \<open>101 / 2\<^sup>4\<^sup>6\<close> of the exact value.\<close>

lemma percent_double_near:
  assumes "0 \<le> x" and "x \<le> 1"
  shows "\<bar>toDouble (toDouble x * 100) - 100 * x\<bar> \<le> 101 / 2 ^ 46"
proof (cases "x = 0")
  case True
  then show ?thesis by (simp add: toDouble_def)
next
  case False
  with assms have x: "0 < x" "x < 128" by simp_all
  note one = toDouble_near [OF x]
  show ?thesis
  proof (cases "toDouble x = 0")
    case True
    with one have "x \<le> 1 / 2 ^ 46" by simp
    moreover have "toDouble (toDouble x * 100) = 0" using True by (simp add: toDouble_def)
    ultimately show ?thesis using x(1) by simp
  next
    case False
    with toDouble_nonneg [of x] have pos: "0 < toDouble x * 100" by simp
    from one assms(2) have "toDouble x \<le> 1 + 1 / 2 ^ 46" by linarith
    then have small: "toDouble x * 100 < 128" by simp
    note two = toDouble_near [OF pos small]
    define a where "a = toDouble (toDouble x * 100) - toDouble x * 100"
    define b where "b = toDouble x - x"
    have eq: "toDouble (toDouble x * 100) - 100 * x = a + 100 * b"
      by (simp add: a_def b_def)
    have "\<bar>a + 100 * b\<bar> \<le> \<bar>a\<bar> + \<bar>100 * b\<bar>" by (rule abs_triangle_ineq)
    also have "\<bar>100 * b\<bar> = 100 * \<bar>b\<bar>" by (simp add: abs_mult)
    finally have "\<bar>a + 100 * b\<bar> \<le> \<bar>a\<bar> + 100 * \<bar>b\<bar>" .
    moreover from one have "\<bar>b\<bar> \<le> 1 / 2 ^ 46" by (simp add: b_def)
    moreover from two have "\<bar>a\<bar> \<le> 1 / 2 ^ 46" by (simp add: a_def)
    ultimately have "\<bar>a + 100 * b\<bar> \<le> 101 / 2 ^ 46" by simp
    then show ?thesis by (simp only: eq)
  qed
qed

lemma round_near:
  fixes c t :: nat and y :: rat
  assumes "0 < t" and "t < 2 ^ 32" and "\<bar>y - 100 * of_nat c / of_nat t\<bar> \<le> 101 / 2 ^ 46"
  shows "if frac (100 * of_nat c / of_nat t :: rat) = 1 / 2
         then \<lfloor>y + 1 / 2\<rfloor> = round (100 * of_nat c / of_nat t :: rat) \<or>
              \<lfloor>y + 1 / 2\<rfloor> = round (100 * of_nat c / of_nat t :: rat) - 1
         else \<lfloor>y + 1 / 2\<rfloor> = round (100 * of_nat c / of_nat t :: rat)"
proof -
  define N :: int where "N = 200 * int c + int t"
  define D :: int where "D = 2 * int t"
  define x :: rat where "x = 100 * of_nat c / of_nat t"
  define E :: int where "E = N div D"
  define r :: int where "r = N mod D"
  have D: "0 < D" "D < 2 ^ 33" using assms(1,2) by (simp_all add: D_def)
  have Dr: "(0::rat) < of_int D" using D(1) by simp
  have xh: "x + 1 / 2 = of_int N / of_int D"
    using assms(1) by (simp add: x_def N_def D_def field_simps)
  have rnd: "round x = E"
    by (simp add: round_def xh floor_divide_of_int_eq E_def)
  have r: "0 \<le> r" "r < D" using D(1) by (simp_all add: r_def)
  have "N = E * D + r" by (simp add: E_def r_def)
  then have "(of_int N :: rat) = of_int E * of_int D + of_int r"
    by (simp only: of_int_add of_int_mult)
  with Dr have split: "x + 1 / 2 = of_int E + of_int r / of_int D"
    by (simp add: xh field_simps)
  have "(of_int D :: rat) < 2 ^ 33"
  proof -
    from D(2) have "(of_int D :: rat) < of_int (2 ^ 33)" by (simp only: of_int_less_iff)
    then show ?thesis by simp
  qed
  then have "(101::rat) * of_int D < 2 ^ 46" by simp
  with Dr have "(101::rat) / 2 ^ 46 < 1 / of_int D" by (simp add: field_simps)
  moreover define eps :: rat where "eps = 101 / 2 ^ 46"
  ultimately have eps: "eps < 1 / of_int D" by simp
  have eps1: "eps < 1" by (simp add: eps_def)
  from assms(3) have "\<bar>y - x\<bar> \<le> eps" by (simp add: x_def eps_def)
  then have near: "x + 1 / 2 - eps \<le> y + 1 / 2" "y + 1 / 2 \<le> x + 1 / 2 + eps"
    by (simp_all add: abs_le_iff algebra_simps)
  have tie: "frac x = 1 / 2 \<longleftrightarrow> r = 0"
  proof
    assume "frac x = 1 / 2"
    then have "x + 1 / 2 = of_int (\<lfloor>x\<rfloor> + 1)" by (simp add: frac_def)
    with split have "of_int r / of_int D = (of_int (\<lfloor>x\<rfloor> + 1 - E) :: rat)" by simp
    with Dr have "(of_int r :: rat) = of_int ((\<lfloor>x\<rfloor> + 1 - E) * D)"
      by (simp add: field_simps)
    then have "r = (\<lfloor>x\<rfloor> + 1 - E) * D" by (simp only: of_int_eq_iff)
    with r show "r = 0"
      by (metis D(1) dvd_triv_right zdvd_not_zless not_less less_le)
  next
    assume "r = 0"
    with split have "x = of_int (E - 1) + 1 / 2" by simp
    moreover have "\<lfloor>of_int (E - 1) + (1 / 2 :: rat)\<rfloor> = E - 1"
      by (intro floor_unique) simp_all
    ultimately show "frac x = 1 / 2" by (simp add: frac_def)
  qed
  show ?thesis
  proof (cases "r = 0")
    case True
    with split have e: "x + 1 / 2 = of_int E" by simp
    from near e eps1 have "of_int (E - 1) \<le> y + 1 / 2" "y + 1 / 2 < of_int (E + 1)"
      by simp_all
    then have "E - 1 \<le> \<lfloor>y + 1 / 2\<rfloor>" "\<lfloor>y + 1 / 2\<rfloor> < E + 1"
      by (simp_all only: le_floor_iff floor_less_iff)
    then have "\<lfloor>y + 1 / 2\<rfloor> = E \<or> \<lfloor>y + 1 / 2\<rfloor> = E - 1" by linarith
    with True tie rnd show ?thesis unfolding x_def [symmetric] by simp
  next
    case False
    with r have "1 \<le> r" "r \<le> D - 1" by simp_all
    then have "(of_int 1 :: rat) \<le> of_int r" "(of_int r :: rat) \<le> of_int (D - 1)"
      by (simp_all only: of_int_le_iff)
    with Dr have "(1::rat) / of_int D \<le> of_int r / of_int D"
      "(of_int r :: rat) / of_int D \<le> 1 - 1 / of_int D"
      by (simp_all add: field_simps)
    with split eps near
    have "of_int E \<le> y + 1 / 2" "y + 1 / 2 < of_int E + 1"
      by linarith+
    then have "\<lfloor>y + 1 / 2\<rfloor> = E" by (rule floor_unique)
    with False tie rnd show ?thesis unfolding x_def [symmetric] by simp
  qed
qed

subsection \<open>Analytics\<close>

lemma percent_value:
  assumes "c \<le> t" and "0 < t" and "t < 2 ^ 32"
  shows "if frac (of_nat c / of_nat t * 100 :: rat) = 1 / 2
         then Math_round (fmul (fdiv (of_nat c) (of_nat t)) 100) = round (of_nat c / of_nat t * 100 :: rat) \<or>
              Math_round (fmul (fdiv (of_nat c) (of_nat t)) 100) = round (of_nat c / of_nat t * 100 :: rat) - 1
         else Math_round (fmul (fdiv (of_nat c) (of_nat t)) 100) = round (of_nat c / of_nat t * 100 :: rat)"
proof -
  let ?x = "of_nat c / of_nat t :: rat"
  from assms(1,2) have x: "0 \<le> ?x" "?x \<le> 1" by simp_all
  have near: "\<bar>toDouble (toDouble ?x * 100) - 100 * of_nat c / of_nat t\<bar> \<le> 101 / 2 ^ 46"
    using percent_double_near [OF x] by simp
  have eq: "(of_nat c / of_nat t * 100 :: rat) = 100 * of_nat c / of_nat t" by simp
  show ?thesis
    unfolding eq Math_round_def fmul_def fdiv_def by (rule round_near [OF assms(2,3) near])
qed

lemma scenario_values:
  "Math_round (fmul (fdiv (of_nat 3) (of_nat 4)) 100) = 75 \<and>
   fmul (of_nat 4) (toDouble (1 / 2)) = 2"
  by code_simp

text \<open>
  Claim C6 as the code has it. For every list of exactly four posts of which three are
  claimed (a claimant being a non-empty user id, which is what the filter
  \<^verbatim>\<open>p => p.claimedBy\<close> keeps) and two are completed, the analytics tab computes 4 posts,
  3 claimed, 2 completed, 75 per cent saved and 2 lbs. For every list of fewer than
  \<open>2\<^sup>3\<^sup>2\<close> posts, as every JavaScript array is, the three counters are the length of the list and of its two filtered
  sublists, and the percentage is 0 when there are no posts and otherwise the exact value
  of \<open>claimedPosts / totalPosts * 100\<close> rounded to the nearest integer, except that an exact
  value half way between two integers, which \<open>round\<close> takes up, comes out as either of
  the two: the tab rounds the double that JavaScript computes for the product.
\<close>

theorem analytics_correct:
  assumes "length ps < 2 ^ 32"
  shows "(length ps = 4 \<and> length (filter (\<lambda>(i, p). isClaimed p) ps) = 3 \<and>
          length (filter (\<lambda>(i, p). completed p) ps) = 2 \<longrightarrow>
            renderAnalyticsTab ps =
              \<lparr>totalPosts = 4, claimedPosts = 3, completedPosts = 2, percentSaved = 75,
               foodWasteLbs = 2\<rparr>) \<and>
         totalPosts (renderAnalyticsTab ps) = length ps \<and>
         claimedPosts (renderAnalyticsTab ps) = length (filter (\<lambda>(i, p). isClaimed p) ps) \<and>
         completedPosts (renderAnalyticsTab ps) = length (filter (\<lambda>(i, p). completed p) ps) \<and>
         (ps = [] \<longrightarrow> percentSaved (renderAnalyticsTab ps) = 0) \<and>
         (ps \<noteq> [] \<longrightarrow>
            (if frac (of_nat (claimedPosts (renderAnalyticsTab ps)) /
                      of_nat (totalPosts (renderAnalyticsTab ps)) * 100 :: rat) = 1 / 2
             then percentSaved (renderAnalyticsTab ps) =
                    round (of_nat (claimedPosts (renderAnalyticsTab ps)) /
                           of_nat (totalPosts (renderAnalyticsTab ps)) * 100 :: rat) \<or>
                  percentSaved (renderAnalyticsTab ps) =
                    round (of_nat (claimedPosts (renderAnalyticsTab ps)) /
                           of_nat (totalPosts (renderAnalyticsTab ps)) * 100 :: rat) - 1
             else percentSaved (renderAnalyticsTab ps) =
                    round (of_nat (claimedPosts (renderAnalyticsTab ps)) /
                           of_nat (totalPosts (renderAnalyticsTab ps)) * 100 :: rat)))"
proof (intro conjI impI)
  assume a: "length ps = 4 \<and> length (filter (\<lambda>(i, p). isClaimed p) ps) = 3 \<and>
    length (filter (\<lambda>(i, p). completed p) ps) = 2"
  then have "length (filter (\<lambda>(i, p). truthy (claimedBy p)) ps) = 3"
    by (simp add: isClaimed_def)
  with a scenario_values show "renderAnalyticsTab ps =
        \<lparr>totalPosts = 4, claimedPosts = 3, completedPosts = 2, percentSaved = 75, foodWasteLbs = 2\<rparr>"
    by (simp add: renderAnalyticsTab_def Let_def)
next
  assume ne: "ps \<noteq> []"
  let ?c = "length (filter (\<lambda>(i, p). truthy (claimedBy p)) ps)"
  let ?t = "length ps"
  have c: "claimedPosts (renderAnalyticsTab ps) = ?c" and t: "totalPosts (renderAnalyticsTab ps) = ?t"
    by (simp_all add: renderAnalyticsTab_def Let_def)
  from ne have p: "percentSaved (renderAnalyticsTab ps) =
      Math_round (fmul (fdiv (of_nat ?c) (of_nat ?t)) 100)"
    by (simp add: renderAnalyticsTab_def Let_def)
  have "?c \<le> ?t" by (rule length_filter_le)
  moreover from ne have "0 < ?t" by simp
  ultimately show "if frac (of_nat (claimedPosts (renderAnalyticsTab ps)) /
                      of_nat (totalPosts (renderAnalyticsTab ps)) * 100 :: rat) = 1 / 2
             then percentSaved (renderAnalyticsTab ps) =
                    round (of_nat (claimedPosts (renderAnalyticsTab ps)) /
                           of_nat (totalPosts (renderAnalyticsTab ps)) * 100 :: rat) \<or>
                  percentSaved (renderAnalyticsTab ps) =
                    round (of_nat (claimedPosts (renderAnalyticsTab ps)) /
                           of_nat (totalPosts (renderAnalyticsTab ps)) * 100 :: rat) - 1
             else percentSaved (renderAnalyticsTab ps) =
                    round (of_nat (claimedPosts (renderAnalyticsTab ps)) /
                           of_nat (totalPosts (renderAnalyticsTab ps)) * 100 :: rat)"
    unfolding c t p using assms by (rule percent_value)
qed (simp_all add: renderAnalyticsTab_def Let_def isClaimed_def)

text \<open>
  The four sample posts; one claimed post of three, which is not half way (33); one of
  eight, which is half way and goes up (13).
\<close>

theorem analytics_correct_witness:
  "length samplePosts < 2 ^ 32 \<and> length samplePosts = 4 \<and>
   length (filter (\<lambda>(i, p). isClaimed p) samplePosts) = 3 \<and>
   length (filter (\<lambda>(i, p). completed p) samplePosts) = 2 \<and>
   renderAnalyticsTab samplePosts =
     \<lparr>totalPosts = 4, claimedPosts = 3, completedPosts = 2, percentSaved = 75, foodWasteLbs = 2\<rparr> \<and>
   frac (of_nat 1 / of_nat 3 * 100 :: rat) \<noteq> 1 / 2 \<and> round (of_nat 1 / of_nat 3 * 100 :: rat) = 33 \<and>
   percentSaved (renderAnalyticsTab (postsClaimed 1 3)) = 33 \<and>
   frac (of_nat 1 / of_nat 8 * 100 :: rat) = 1 / 2 \<and> round (of_nat 1 / of_nat 8 * 100 :: rat) = 13 \<and>
   percentSaved (renderAnalyticsTab (postsClaimed 1 8)) = 13"
proof -
  have h0: "length samplePosts < 2 ^ 32" by (simp add: samplePosts_def)
  have h1: "length samplePosts = 4" by (simp add: samplePosts_def)
  have h2: "length (filter (\<lambda>(i, p). isClaimed p) samplePosts) = 3" by code_simp
  have h3: "length (filter (\<lambda>(i, p). completed p) samplePosts) = 2" by code_simp
  have third: "length (postsClaimed 1 3) < 2 ^ 32" "postsClaimed 1 3 \<noteq> []"
    "claimedPosts (renderAnalyticsTab (postsClaimed 1 3)) = 1"
    "totalPosts (renderAnalyticsTab (postsClaimed 1 3)) = 3"
    by (simp_all add: postsClaimed_def renderAnalyticsTab_def Let_def claimedPizza_def pizza_def truthy_def)
  have f3: "frac (of_nat 1 / of_nat 3 * 100 :: rat) \<noteq> 1 / 2 \<and> round (of_nat 1 / of_nat 3 * 100 :: rat) = 33"
    by code_simp
  have f8: "frac (of_nat 1 / of_nat 8 * 100 :: rat) = 1 / 2 \<and> round (of_nat 1 / of_nat 8 * 100 :: rat) = 13"
    by code_simp
  have p8: "percentSaved (renderAnalyticsTab (postsClaimed 1 8)) = 13" by code_simp
  from analytics_correct [OF third(1)] third(2) have
    "if frac (of_nat 1 / of_nat 3 * 100 :: rat) = 1 / 2
     then percentSaved (renderAnalyticsTab (postsClaimed 1 3)) = round (of_nat 1 / of_nat 3 * 100 :: rat) \<or>
          percentSaved (renderAnalyticsTab (postsClaimed 1 3)) = round (of_nat 1 / of_nat 3 * 100 :: rat) - 1
     else percentSaved (renderAnalyticsTab (postsClaimed 1 3)) = round (of_nat 1 / of_nat 3 * 100 :: rat)"
    unfolding third(3,4) by blast
  with f3 have p3: "percentSaved (renderAnalyticsTab (postsClaimed 1 3)) = 33" by simp
  from analytics_correct [OF h0] h1 h2 h3 have
    "renderAnalyticsTab samplePosts =
     \<lparr>totalPosts = 4, claimedPosts = 3, completedPosts = 2, percentSaved = 75, foodWasteLbs = 2\<rparr>"
    by blast
  with h0 h1 h2 h3 f3 f8 p3 p8 show ?thesis by simp
qed

text \<open>
  Claim C6 as stated fails for 23 claimed posts of 40: the exact percentage 57.5 rounds to
  58, the double computed for it is 57.49999999999999 and the tab shows 57.
\<close>

theorem percent_half_way_counterexample:
  "claimedPosts (renderAnalyticsTab (postsClaimed 23 40)) = 23 \<and>
   totalPosts (renderAnalyticsTab (postsClaimed 23 40)) = 40 \<and>
   round (of_nat 23 / of_nat 40 * 100 :: rat) = 58 \<and>
   percentSaved (renderAnalyticsTab (postsClaimed 23 40)) = 57 \<and>
   fmul (fdiv (of_nat 23) (of_nat 40)) 100 = 57 + 1 / 2 - 1 / 2 ^ 47"
  by code_simp

end
